theory Spec2Isabelle
  imports Main "HOL-Library.Word"
begin

section \<open>Data model of minesweeper.c\<close>

text \<open>
  A cell of either board is a C \<^verbatim>\<open>char\<close>: eight bits, compared with \<^verbatim>\<open>==\<close> and
  incremented with \<^verbatim>\<open>++\<close> (which wraps in the eight bits).
\<close>

type_synonym cell = "8 word"

text \<open>
  Modelled from the spec: the header \<^verbatim>\<open>minesweeper.h\<close>, which defines the cell codes
  \<^verbatim>\<open>MSW_CLEAR\<close>, \<^verbatim>\<open>MSW_MINE\<close>, \<^verbatim>\<open>MSW_UNKNOWN\<close> and \<^verbatim>\<open>MSW_FLAG\<close>, is not among the
  sources. The four codes are a parameter \<open>k\<close> of every function that uses one; nothing is
  assumed about their values except where a theorem says so.
\<close>

record codes =
  MSW_CLEAR :: cell
  MSW_MINE :: cell
  MSW_UNKNOWN :: cell
  MSW_FLAG :: cell

text \<open>
  The struct \<^verbatim>\<open>smb_mine\<close>. The pointer \<^verbatim>\<open>grid\<close> is \<^verbatim>\<open>NULL\<close> until the first dig:
  \<open>None\<close>. An allocated array is the list of its cells. The C \<^verbatim>\<open>int\<close>s are
  integers. Where a session is set up, the size \<open>rows * columns\<close> is formed as the
  machine forms it, in 32 bits (\<open>c_mul\<close> below). On a session whose size fits an
  \<^verbatim>\<open>int\<close>, every product and sum the code forms from in-bounds coordinates lies
  between \<open>0\<close> and that size, and is written without the wrap.
\<close>

record smb_mine =
  rows :: int
  columns :: int
  mines :: int
  grid :: "cell list option"
  visible :: "cell list"

text \<open>The largest \<^verbatim>\<open>int\<close>, and the product of two \<^verbatim>\<open>int\<close>s kept in 32 bits
  (two's complement: what the multiplication leaves in the register).\<close>

definition INT_MAX :: int where
  "INT_MAX = 2147483647"

definition c_mul :: "int \<Rightarrow> int \<Rightarrow> int" where
  "c_mul a b = (a * b + 2147483648) mod 4294967296 - 2147483648"

text \<open>
  What stops a call short of its \<^verbatim>\<open>return\<close>. \<open>MemoryFault\<close>: the C code reads or
  writes outside an array, or divides by zero (undefined behaviour). \<open>NoMoreRandom\<close>: the
  outputs of \<^verbatim>\<open>rand()\<close> are given to the model as a finite list, and a sampling loop asked
  for one more than the list holds: on these outputs the loop has not ended yet.
\<close>

datatype abort = MemoryFault | NoMoreRandom

definition NUM_NEIGHBORS :: nat where
  "NUM_NEIGHBORS = 8"

definition rnbr :: "int list" where
  "rnbr = [-1, -1, -1, 0, 0, 1, 1, 1]"

definition cnbr :: "int list" where
  "cnbr = [-1, 0, 1, -1, 1, -1, 0, 1]"

definition msw_in_bounds :: "smb_mine \<Rightarrow> int \<Rightarrow> int \<Rightarrow> bool" where
  "msw_in_bounds game row column \<longleftrightarrow>
     row \<ge> 0 \<and> row < rows game \<and> column \<ge> 0 \<and> column < columns game"

definition msw_index :: "smb_mine \<Rightarrow> int \<Rightarrow> int \<Rightarrow> int" where
  "msw_index game row column = row * columns game + column"

text \<open>An index that lies inside an array.\<close>

definition in_array :: "'a list \<Rightarrow> int \<Rightarrow> bool" where
  "in_array xs i \<longleftrightarrow> 0 \<le> i \<and> i < int (length xs)"

text \<open>
  \<^verbatim>\<open>smb_new(char, n)\<close> of libstephen: a fresh array of \<open>n\<close> cells. Both callers
  overwrite every cell before reading one, so the initial content is immaterial; it is
  taken as zero.
\<close>

definition smb_new :: "int \<Rightarrow> cell list" where
  "smb_new n = replicate (nat n) 0"

section \<open>Board generation\<close>

text \<open>Lines 56-58: \<^verbatim>\<open>for (i = 0; i < rows*columns; i++) obj->grid[i] = MSW_CLEAR;\<close>\<close>

function clear_cells :: "codes \<Rightarrow> int \<Rightarrow> int \<Rightarrow> cell list \<Rightarrow> cell list" where
  "clear_cells k i n g =
     (if i < n then clear_cells k (i + 1) n (g[nat i := MSW_CLEAR k]) else g)"
  by pat_completeness auto
termination
  by (relation "measure (\<lambda>(k, i, n, g). nat (n - i))") auto

declare clear_cells.simps [simp del]

text \<open>
  Lines 62-68: the rejection sampler. \<open>rs\<close> holds the coming outputs of \<^verbatim>\<open>rand()\<close>,
  which are never negative. With \<open>ncells \<le> 0\<close> the statement \<^verbatim>\<open>i = rand() % ncells\<close>
  divides by zero or indexes an array without cells.
\<close>

fun place_mines ::
  "codes \<Rightarrow> int \<Rightarrow> int \<Rightarrow> cell list \<Rightarrow> nat list \<Rightarrow> abort + (cell list \<times> nat list)" where
  "place_mines k m ncells g [] = (if m > 0 then Inl NoMoreRandom else Inr (g, []))"
| "place_mines k m ncells g (x # rs) =
     (if m > 0 then
        (if ncells \<le> 0 \<or> \<not> in_array g (int x mod ncells) then Inl MemoryFault
         else if g ! nat (int x mod ncells) = MSW_CLEAR k
           then place_mines k (m - 1) ncells (g[nat (int x mod ncells) := MSW_MINE k]) rs
           else place_mines k m ncells g rs)
      else Inr (g, x # rs))"

text \<open>Lines 78-85: the loop over the eight neighbours of the mine at \<open>(i, j)\<close>.\<close>

function count_neighbors ::
  "codes \<Rightarrow> smb_mine \<Rightarrow> int \<Rightarrow> int \<Rightarrow> nat \<Rightarrow> cell list \<Rightarrow> cell list" where
  "count_neighbors k obj i j n g =
     (if n < NUM_NEIGHBORS then
        count_neighbors k obj i j (n + 1)
          (if msw_in_bounds obj (i + rnbr ! n) (j + cnbr ! n) \<and>
              g ! nat (msw_index obj (i + rnbr ! n) (j + cnbr ! n)) \<noteq> MSW_MINE k
           then g[nat (msw_index obj (i + rnbr ! n) (j + cnbr ! n)) :=
                    g ! nat (msw_index obj (i + rnbr ! n) (j + cnbr ! n)) + 1]
           else g)
      else g)"
  by pat_completeness auto
termination
  by (relation "measure (\<lambda>(k, obj, i, j, n, g). NUM_NEIGHBORS - n)") auto

declare count_neighbors.simps [simp del]

text \<open>Lines 72-87: the loop over the columns of row \<open>i\<close>.\<close>

function count_columns :: "codes \<Rightarrow> smb_mine \<Rightarrow> int \<Rightarrow> int \<Rightarrow> cell list \<Rightarrow> cell list" where
  "count_columns k obj i j g =
     (if j < columns obj then
        count_columns k obj i (j + 1)
          (if g ! nat (msw_index obj i j) = MSW_MINE k
           then count_neighbors k obj i j 0 g else g)
      else g)"
  by pat_completeness auto
termination
  by (relation "measure (\<lambda>(k, obj, i, j, g). nat (columns obj - j))") auto

declare count_columns.simps [simp del]

text \<open>Lines 71-88: the loop over the rows.\<close>

function count_rows :: "codes \<Rightarrow> smb_mine \<Rightarrow> int \<Rightarrow> cell list \<Rightarrow> cell list" where
  "count_rows k obj i g =
     (if i < rows obj then count_rows k obj (i + 1) (count_columns k obj i 0 g) else g)"
  by pat_completeness auto
termination
  by (relation "measure (\<lambda>(k, obj, i, g). nat (rows obj - i))") auto

declare count_rows.simps [simp del]

text \<open>
  \<^verbatim>\<open>msw_generate_grid\<close>. \<open>g\<close> is the array \<^verbatim>\<open>obj->grid\<close> points to, which line 103
  allocated with \<open>rows * columns\<close> cells; an array of another size is not a state of the
  program and is refused.
\<close>

definition msw_generate_grid ::
  "codes \<Rightarrow> smb_mine \<Rightarrow> cell list \<Rightarrow> nat list \<Rightarrow> abort + (cell list \<times> nat list)" where
  "msw_generate_grid k obj g rs =
     (if length g \<noteq> nat (rows obj * columns obj) then Inl MemoryFault
      else case place_mines k (mines obj) (rows obj * columns obj)
                  (clear_cells k 0 (rows obj * columns obj) g) rs of
             Inl e \<Rightarrow> Inl e
           | Inr (g', rs') \<Rightarrow> Inr (count_rows k obj 0 g', rs'))"

lemma index_in_range:
  assumes "msw_in_bounds obj r c"
  shows "0 \<le> msw_index obj r c" and "msw_index obj r c < rows obj * columns obj"
proof -
  from assms have r: "0 \<le> r" "r + 1 \<le> rows obj" and c: "0 \<le> c" "c < columns obj"
    by (simp_all add: msw_in_bounds_def)
  show "0 \<le> msw_index obj r c"
    using r c by (simp add: msw_index_def)
  have "r * columns obj + c < (r + 1) * columns obj"
    using c by (simp add: algebra_simps)
  also have "\<dots> \<le> rows obj * columns obj"
    using r c by (intro mult_right_mono) simp_all
  finally show "msw_index obj r c < rows obj * columns obj"
    by (simp add: msw_index_def)
qed

lemma in_array_nat: "in_array xs i \<Longrightarrow> nat i < length xs"
  unfolding in_array_def by linarith

lemma index_nat_less:
  "msw_in_bounds obj r c \<Longrightarrow> length g = nat (rows obj * columns obj) \<Longrightarrow>
   nat (msw_index obj r c) < length g"
  using index_in_range[of obj r c] by simp

lemma length_clear_cells [simp]: "length (clear_cells k i n g) = length g"
  by (induction k i n g rule: clear_cells.induct) (subst clear_cells.simps, simp)

lemma clear_cells_nth:
  "0 \<le> i \<Longrightarrow> j < length g \<Longrightarrow>
   clear_cells k i n g ! j = (if i \<le> int j \<and> int j < n then MSW_CLEAR k else g ! j)"
proof (induction k i n g rule: clear_cells.induct)
  case (1 k i n g)
  show ?case
  proof (cases "i < n")
    case True
    with "1.IH" "1.prems" show ?thesis
      by (subst clear_cells.simps) (auto simp: nth_list_update)
  next
    case False
    then show ?thesis by (subst clear_cells.simps) auto
  qed
qed

lemma clear_cells_all:
  "length g = nat n \<Longrightarrow> clear_cells k 0 n g = replicate (nat n) (MSW_CLEAR k)"
  by (rule nth_equalityI) (auto simp: clear_cells_nth)

lemma place_mines_length:
  "place_mines k m n g rs = Inr (g', rs') \<Longrightarrow> length g' = length g"
  by (induction k m n g rs rule: place_mines.induct) (auto split: if_splits)

lemma place_mines_supply:
  "place_mines k m n g rs = Inr (g', rs') \<Longrightarrow>
   length rs' \<le> length rs \<and> (0 < m \<longrightarrow> length rs' < length rs)"
  by (induction k m n g rs rule: place_mines.induct) (fastforce split: if_splits)+

lemma place_mines_none: "m \<le> 0 \<Longrightarrow> place_mines k m n g rs = Inr (g, rs)"
  by (cases rs) simp_all

lemma length_count_neighbors [simp]: "length (count_neighbors k obj i j n g) = length g"
  by (induction k obj i j n g rule: count_neighbors.induct)
     (subst count_neighbors.simps, simp)

lemma length_count_columns [simp]: "length (count_columns k obj i j g) = length g"
  by (induction k obj i j g rule: count_columns.induct)
     (subst count_columns.simps, simp)

lemma length_count_rows [simp]: "length (count_rows k obj i g) = length g"
  by (induction k obj i g rule: count_rows.induct)
     (subst count_rows.simps, simp)

lemma count_neighbors_all_mines:
  "\<forall>i<length g. g ! i = MSW_MINE k \<Longrightarrow> length g = nat (rows obj * columns obj) \<Longrightarrow>
   count_neighbors k obj i j n g = g"
proof (induction k obj i j n g rule: count_neighbors.induct)
  case (1 k obj i j n g)
  show ?case
  proof (cases "n < NUM_NEIGHBORS")
    case True
    have "msw_in_bounds obj (i + rnbr ! n) (j + cnbr ! n) \<Longrightarrow>
          g ! nat (msw_index obj (i + rnbr ! n) (j + cnbr ! n)) = MSW_MINE k"
      using "1.prems" index_nat_less by blast
    then have eq: "(if msw_in_bounds obj (i + rnbr ! n) (j + cnbr ! n) \<and>
              g ! nat (msw_index obj (i + rnbr ! n) (j + cnbr ! n)) \<noteq> MSW_MINE k
           then g[nat (msw_index obj (i + rnbr ! n) (j + cnbr ! n)) :=
                    g ! nat (msw_index obj (i + rnbr ! n) (j + cnbr ! n)) + 1]
           else g) = g"
      by auto
    from "1.IH"[OF True, unfolded eq, OF "1.prems"] True show ?thesis
      by (subst count_neighbors.simps) (simp only: eq if_True)
  next
    case False
    then show ?thesis by (subst count_neighbors.simps) simp
  qed
qed

lemma count_columns_uniform:
  assumes "(\<forall>i<length g. g ! i = MSW_MINE k) \<or> (\<forall>i<length g. g ! i \<noteq> MSW_MINE k)"
    and "length g = nat (rows obj * columns obj)" and "0 \<le> i" and "i < rows obj" and "0 \<le> j"
  shows "count_columns k obj i j g = g"
  using assms
proof (induction k obj i j g rule: count_columns.induct)
  case (1 k obj i j g)
  show ?case
  proof (cases "j < columns obj")
    case True
    then have "msw_in_bounds obj i j"
      using "1.prems" by (simp add: msw_in_bounds_def)
    then have "nat (msw_index obj i j) < length g"
      using "1.prems" index_nat_less by blast
    then have "(if g ! nat (msw_index obj i j) = MSW_MINE k
                then count_neighbors k obj i j 0 g else g) = g"
      using "1.prems" count_neighbors_all_mines by auto
    from "1.IH"[OF True, unfolded this] "1.prems" True this show ?thesis
      by (subst count_columns.simps) simp
  next
    case False
    then show ?thesis by (subst count_columns.simps) simp
  qed
qed

lemma count_rows_uniform:
  assumes "(\<forall>i<length g. g ! i = MSW_MINE k) \<or> (\<forall>i<length g. g ! i \<noteq> MSW_MINE k)"
    and "length g = nat (rows obj * columns obj)" and "0 \<le> i"
  shows "count_rows k obj i g = g"
  using assms
proof (induction k obj i g rule: count_rows.induct)
  case (1 k obj i g)
  show ?case
  proof (cases "i < rows obj")
    case True
    then have "count_columns k obj i 0 g = g"
      using "1.prems" by (intro count_columns_uniform) simp_all
    with True "1.IH" "1.prems" show ?thesis
      by (subst count_rows.simps) simp
  next
    case False
    then show ?thesis by (subst count_rows.simps) simp
  qed
qed

lemma generate_without_mines:
  assumes "msw_generate_grid k obj g rs = Inr (g', rs')" and "mines obj \<le> 0"
  shows "g' = replicate (nat (rows obj * columns obj)) (MSW_CLEAR k) \<and> rs' = rs"
proof -
  let ?n = "rows obj * columns obj"
  let ?c = "replicate (nat ?n) (MSW_CLEAR k)"
  from assms(1) have len: "length g = nat ?n"
    by (auto simp: msw_generate_grid_def split: if_splits)
  then have c: "clear_cells k 0 ?n g = ?c"
    by (rule clear_cells_all)
  have "(\<forall>i<length ?c. ?c ! i = MSW_MINE k) \<or> (\<forall>i<length ?c. ?c ! i \<noteq> MSW_MINE k)"
    by (cases "MSW_CLEAR k = MSW_MINE k") simp_all
  then have "count_rows k obj 0 ?c = ?c"
    by (rule count_rows_uniform) simp_all
  with assms len c show ?thesis
    by (simp add: msw_generate_grid_def place_mines_none)
qed

lemma generate_supply:
  assumes "msw_generate_grid k obj g rs = Inr (g', rs')"
  shows "length rs' \<le> length rs" and "0 < mines obj \<Longrightarrow> length rs' < length rs"
    and "length g' = nat (rows obj * columns obj)"
  using assms place_mines_supply place_mines_length
  by (fastforce simp: msw_generate_grid_def split: if_splits sum.splits)+

text \<open>
  Lines 104-106: \<^verbatim>\<open>do { msw_generate_grid(obj); } while (obj->grid[msw_index(obj, r, c)]
  != MSW_CLEAR);\<close> A pass that places no mine leaves every cell clear, so each further
  turn of the loop has drawn a random number.
\<close>

function initial_grid_loop ::
  "codes \<Rightarrow> smb_mine \<Rightarrow> int \<Rightarrow> int \<Rightarrow> cell list \<Rightarrow> nat list \<Rightarrow> abort + (cell list \<times> nat list)" where
  "initial_grid_loop k obj r c g rs =
     (case msw_generate_grid k obj g rs of
        Inl e \<Rightarrow> Inl e
      | Inr (g', rs') \<Rightarrow>
          if \<not> in_array g' (msw_index obj r c) then Inl MemoryFault
          else if g' ! nat (msw_index obj r c) \<noteq> MSW_CLEAR k
            then initial_grid_loop k obj r c g' rs'
            else Inr (g', rs'))"
  by pat_completeness auto
termination
proof (relation "measure (\<lambda>(k, obj, r, c, g, rs). length rs)")
  show "wf (measure (\<lambda>(k, obj, r, c, g, rs). length rs))" by simp
next
  fix k :: codes and obj :: smb_mine and r c :: int and g g' :: "cell list"
    and rs rs' :: "nat list" and x
  assume gen: "msw_generate_grid k obj g rs = Inr x" and x: "(g', rs') = x"
    and arr: "\<not> \<not> in_array g' (msw_index obj r c)"
    and ncl: "g' ! nat (msw_index obj r c) \<noteq> MSW_CLEAR k"
  from gen x have gen': "msw_generate_grid k obj g rs = Inr (g', rs')" by simp
  have "0 < mines obj"
  proof (rule ccontr)
    assume "\<not> 0 < mines obj"
    then have "g' = replicate (nat (rows obj * columns obj)) (MSW_CLEAR k)"
      using generate_without_mines[OF gen'] by simp
    moreover from arr have "nat (msw_index obj r c) < length g'"
      by (simp add: in_array_nat)
    ultimately show False using ncl by simp
  qed
  then have "length rs' < length rs"
    using generate_supply(2)[OF gen'] by simp
  then show "((k, obj, r, c, g', rs'), (k, obj, r, c, g, rs))
             \<in> measure (\<lambda>(k, obj, r, c, g, rs). length rs)"
    by simp
qed

declare initial_grid_loop.simps [simp del]

text \<open>
  \<^verbatim>\<open>msw_initial_grid\<close>: allocate the array, then generate until the cell of the first
  dig is clear.
\<close>

definition msw_initial_grid ::
  "codes \<Rightarrow> smb_mine \<Rightarrow> int \<Rightarrow> int \<Rightarrow> nat list \<Rightarrow> abort + (smb_mine \<times> nat list)" where
  "msw_initial_grid k obj r c rs =
     (case initial_grid_loop k obj r c (smb_new (rows obj * columns obj)) rs of
        Inl e \<Rightarrow> Inl e
      | Inr (g, rs') \<Rightarrow> Inr (obj\<lparr>grid := Some g\<rparr>, rs'))"

section \<open>Sessions\<close>

text \<open>Lines 125-127: \<^verbatim>\<open>for (i = 0; i < rows*columns; i++) obj->visible[i] = MSW_UNKNOWN;\<close>\<close>

function unknown_cells :: "codes \<Rightarrow> int \<Rightarrow> int \<Rightarrow> cell list \<Rightarrow> cell list" where
  "unknown_cells k i n v =
     (if i < n then unknown_cells k (i + 1) n (v[nat i := MSW_UNKNOWN k]) else v)"
  by pat_completeness auto
termination
  by (relation "measure (\<lambda>(k, i, n, v). nat (n - i))") auto

declare unknown_cells.simps [simp del]

text \<open>
  \<^verbatim>\<open>smb_mine_init\<close> returns nothing and checks nothing: it fills in the struct. The
  number of cells, \<^verbatim>\<open>int ncells = rows * columns\<close> on line 115 and the loop bound on
  line 125, is a 32-bit product.
\<close>

definition smb_mine_init :: "codes \<Rightarrow> smb_mine \<Rightarrow> int \<Rightarrow> int \<Rightarrow> int \<Rightarrow> smb_mine" where
  "smb_mine_init k obj rows' columns' mines' =
     obj\<lparr>rows := rows', columns := columns', mines := mines', grid := None,
          visible := unknown_cells k 0 (c_mul rows' columns')
                       (smb_new (c_mul rows' columns'))\<rparr>"

text \<open>
  \<^verbatim>\<open>smb_mine_create\<close>: a fresh struct, initialised. The content of the fresh struct is
  immaterial, every field being overwritten.
\<close>

definition smb_mine_create :: "codes \<Rightarrow> int \<Rightarrow> int \<Rightarrow> int \<Rightarrow> smb_mine" where
  "smb_mine_create k rows' columns' mines' =
     smb_mine_init k \<lparr>rows = 0, columns = 0, mines = 0, grid = None, visible = []\<rparr>
       rows' columns' mines'"

section \<open>Digging and flagging\<close>

text \<open>
  The cells that a flood fill has still to open: clear in the true grid, not shown clear.
  Before the true grid exists the count is above any it can have afterwards.
\<close>

definition unopened :: "codes \<Rightarrow> smb_mine \<Rightarrow> nat" where
  "unopened k game =
     (case grid game of
        None \<Rightarrow> Suc (length (visible game))
      | Some g \<Rightarrow> card {i. i < length (visible game) \<and> i < length g \<and>
                          g ! i = MSW_CLEAR k \<and> visible game ! i \<noteq> MSW_CLEAR k})"

lemma initial_grid_result:
  assumes "msw_initial_grid k obj r c rs = Inr (obj', rs')"
  shows "\<exists>g. obj' = obj\<lparr>grid := Some g\<rparr>"
  using assms by (auto simp: msw_initial_grid_def split: sum.splits)

lemma unopened_write:
  assumes "grid game = Some g" and "x = g ! i"
  shows "unopened k (game\<lparr>visible := (visible game)[i := x]\<rparr>) \<le> unopened k game"
proof -
  let ?A = "{j. j < length (visible game) \<and> j < length g \<and>
                g ! j = MSW_CLEAR k \<and> (visible game)[i := x] ! j \<noteq> MSW_CLEAR k}"
  let ?B = "{j. j < length (visible game) \<and> j < length g \<and>
                g ! j = MSW_CLEAR k \<and> visible game ! j \<noteq> MSW_CLEAR k}"
  have "?A \<subseteq> ?B"
  proof
    fix j assume "j \<in> ?A"
    then show "j \<in> ?B" using assms(2) by (cases "j = i") auto
  qed
  moreover have "finite ?B" by simp
  ultimately have "card ?A \<le> card ?B" by (rule card_mono[rotated])
  with assms(1) show ?thesis by (simp add: unopened_def)
qed

lemma unopened_open:
  assumes "grid game = Some g" and "i < length (visible game)" and "i < length g"
    and "g ! i = MSW_CLEAR k" and "visible game ! i \<noteq> MSW_CLEAR k"
  shows "unopened k (game\<lparr>visible := (visible game)[i := MSW_CLEAR k]\<rparr>) < unopened k game"
proof -
  let ?A = "{j. j < length (visible game) \<and> j < length g \<and>
                g ! j = MSW_CLEAR k \<and> (visible game)[i := MSW_CLEAR k] ! j \<noteq> MSW_CLEAR k}"
  let ?B = "{j. j < length (visible game) \<and> j < length g \<and>
                g ! j = MSW_CLEAR k \<and> visible game ! j \<noteq> MSW_CLEAR k}"
  have "?A \<subseteq> ?B"
  proof
    fix j assume "j \<in> ?A"
    then show "j \<in> ?B" by (cases "j = i") auto
  qed
  moreover have "i \<in> ?B" and "i \<notin> ?A"
    using assms by simp_all
  ultimately have "?A \<subset> ?B" by blast
  moreover have "finite ?B" by simp
  ultimately have "card ?A < card ?B" by (rule psubset_card_mono[rotated])
  with assms(1) show ?thesis by (simp add: unopened_def)
qed

lemma unopened_generated:
  "grid game = None \<Longrightarrow> unopened k (game\<lparr>grid := Some g\<rparr>) < unopened k game"
proof -
  have "card {i. i < length (visible game) \<and> i < length g \<and>
                 g ! i = MSW_CLEAR k \<and> visible game ! i \<noteq> MSW_CLEAR k}
        \<le> card {i. i < length (visible game)}"
    by (rule card_mono) auto
  then show "grid game = None \<Longrightarrow> ?thesis"
    by (simp add: unopened_def)
qed

lemma started_unopened:
  assumes "(if grid game = None then msw_initial_grid k game row column rs
            else Inr (game, rs)) = Inr (game1, rs1)"
  shows "unopened k game1 \<le> unopened k game"
proof (cases "grid game = None")
  case True
  with assms obtain g where "game1 = game\<lparr>grid := Some g\<rparr>"
    using initial_grid_result by fastforce
  with True show ?thesis
    using unopened_generated[of game k g] by simp
next
  case False
  with assms show ?thesis by simp
qed

text \<open>
  \<^verbatim>\<open>msw_dig\<close> with its loop over the neighbours (lines 241-243), which discards what the
  nested calls return. The status is \<open>0\<close> out of bounds, \<open>- 1\<close> on a mine, \<open>1\<close>
  otherwise. Behind the bounds check the index lies inside both arrays of every session
  that \<^verbatim>\<open>smb_mine_init\<close> set up; the model says so with a guard.
\<close>

function msw_dig ::
    "codes \<Rightarrow> smb_mine \<Rightarrow> int \<Rightarrow> int \<Rightarrow> nat list \<Rightarrow> abort + (smb_mine \<times> int \<times> nat list)"
  and dig_neighbors ::
    "codes \<Rightarrow> smb_mine \<Rightarrow> int \<Rightarrow> int \<Rightarrow> nat \<Rightarrow> nat list \<Rightarrow> abort + (smb_mine \<times> nat list)"
where
  "msw_dig k game row column rs =
     (if \<not> msw_in_bounds game row column then Inr (game, 0, rs)
      else
        case (if grid game = None then msw_initial_grid k game row column rs
              else Inr (game, rs)) of
          Inl e \<Rightarrow> Inl e
        | Inr (game1, rs1) \<Rightarrow>
           (case grid game1 of
              None \<Rightarrow> Inl MemoryFault
            | Some g \<Rightarrow>
                if \<not> in_array g (msw_index game1 row column) \<or>
                   \<not> in_array (visible game1) (msw_index game1 row column)
                then Inl MemoryFault
                else if g ! nat (msw_index game1 row column) = MSW_CLEAR k \<and>
                        visible game1 ! nat (msw_index game1 row column) \<noteq> MSW_CLEAR k
                then
                  (case dig_neighbors k
                          (game1\<lparr>visible := (visible game1)
                              [nat (msw_index game1 row column) := MSW_CLEAR k]\<rparr>)
                          row column 0 rs1 of
                     Inl e \<Rightarrow> Inl e
                   | Inr (game2, rs2) \<Rightarrow> Inr (game2, 1, rs2))
                else if g ! nat (msw_index game1 row column) = MSW_MINE k
                then Inr (game1\<lparr>visible := (visible game1)
                            [nat (msw_index game1 row column) := MSW_MINE k]\<rparr>, - 1, rs1)
                else if visible game1 ! nat (msw_index game1 row column) = MSW_FLAG k
                then Inr (game1, 1, rs1)
                else Inr (game1\<lparr>visible := (visible game1)
                            [nat (msw_index game1 row column) :=
                               g ! nat (msw_index game1 row column)]\<rparr>, 1, rs1)))"
| "dig_neighbors k game row column n rs =
     (if n < NUM_NEIGHBORS then
        (case msw_dig k game (row + rnbr ! n) (column + cnbr ! n) rs of
           Inl e \<Rightarrow> Inl e
         | Inr (game', status, rs') \<Rightarrow> dig_neighbors k game' row column (n + 1) rs')
      else Inr (game, rs))"
  by pat_completeness auto


lemma dig_unopened_dom:
  "msw_dig_dig_neighbors_dom (Inl (k, game, row, column, rs)) \<Longrightarrow>
   msw_dig k game row column rs = Inr (game', st, rs') \<Longrightarrow> unopened k game' \<le> unopened k game"
  "msw_dig_dig_neighbors_dom (Inr (k, game, row, column, n, rs)) \<Longrightarrow>
   dig_neighbors k game row column n rs = Inr (game'', rs'') \<Longrightarrow>
   unopened k game'' \<le> unopened k game"
proof (induction k game row column rs and k game row column n rs
       arbitrary: game' st rs' and game'' rs'' rule: msw_dig_dig_neighbors.pinduct)
  case (1 k game row column rs)
  show ?case
  proof (cases "msw_in_bounds game row column")
    case False
    with "1.prems" "1.hyps" show ?thesis by (simp add: msw_dig.psimps)
  next
    case True
    with "1.prems" "1.hyps" obtain game1 rs1 g where
      start: "(if grid game = None then msw_initial_grid k game row column rs
               else Inr (game, rs)) = Inr (game1, rs1)"
      and g: "grid game1 = Some g"
      and arr: "in_array g (msw_index game1 row column)"
               "in_array (visible game1) (msw_index game1 row column)"
      by (auto simp: msw_dig.psimps split: sum.splits option.splits if_splits)
    let ?i = "nat (msw_index game1 row column)"
    note le1 = started_unopened[OF start]
    show ?thesis
    proof (cases "g ! ?i = MSW_CLEAR k \<and> visible game1 ! ?i \<noteq> MSW_CLEAR k")
      case A: True
      let ?game2 = "game1\<lparr>visible := (visible game1)[?i := MSW_CLEAR k]\<rparr>"
      from "1.prems" "1.hyps" True start g arr A
      obtain rs2 where "dig_neighbors k ?game2 row column 0 rs1 = Inr (game', rs2)"
        by (auto simp: msw_dig.psimps split: sum.splits)
      then have "unopened k game' \<le> unopened k ?game2"
        using "1.IH"[of "(game1, rs1)" game1 rs1 g] True start g arr A by simp
      also have "\<dots> < unopened k game1"
        using unopened_open[OF g in_array_nat[OF arr(2)] in_array_nat[OF arr(1)]] A by simp
      finally show ?thesis using le1 by simp
    next
      case False
      with "1.prems" "1.hyps" True start g arr
      have "game' = game1 \<or> game' = game1\<lparr>visible := (visible game1)[?i := g ! ?i]\<rparr>"
        by (auto simp: msw_dig.psimps split: if_splits)
      then have "unopened k game' \<le> unopened k game1"
        using unopened_write[OF g refl, of k ?i] by auto
      with le1 show ?thesis by simp
    qed
  qed
next
  case (2 k game row column n rs)
  show ?case
  proof (cases "n < NUM_NEIGHBORS")
    case False
    with "2.prems" "2.hyps" show ?thesis by (simp add: dig_neighbors.psimps)
  next
    case True
    with "2.prems" "2.hyps" obtain game1 st1 rs1 where
      d: "msw_dig k game (row + rnbr ! n) (column + cnbr ! n) rs = Inr (game1, st1, rs1)"
      and r: "dig_neighbors k game1 row column (n + 1) rs1 = Inr (game'', rs'')"
      by (auto simp: dig_neighbors.psimps split: sum.splits)
    have "unopened k game'' \<le> unopened k game1"
      using "2.IH"(2)[OF True d refl refl r] .
    also have "\<dots> \<le> unopened k game"
      using "2.IH"(1)[OF True d] .
    finally show ?thesis .
  qed
qed

termination msw_dig
proof (relation "measures
   [\<lambda>x. case x of Inl (k, game, row, column, rs) \<Rightarrow> unopened k game
             | Inr (k, game, row, column, n, rs) \<Rightarrow> unopened k game,
    \<lambda>x. case x of Inl _ \<Rightarrow> 0 | Inr _ \<Rightarrow> 1,
    \<lambda>x. case x of Inl _ \<Rightarrow> 0 | Inr (k, game, row, column, n, rs) \<Rightarrow> NUM_NEIGHBORS - n]",
   goal_cases)
  case 1
  show ?case by simp
next
  case (2 k game row column rs b x y x2)
  then have "(if grid game = None then msw_initial_grid k game row column rs
              else Inr (game, rs)) = Inr (x, y)"
    by simp
  from started_unopened[OF this] 2 show ?case
    using unopened_open[of x x2 "nat (msw_index x row column)" k]
    by (simp add: in_array_nat)
next
  case (3 k game row column n rs)
  then show ?case by simp
next
  case (4 k game row column n rs b x y xa ya)
  then have "msw_dig k game (row + rnbr ! n) (column + cnbr ! n) rs = Inr (x, xa, ya)"
    by auto
  from dig_unopened_dom(1)[OF 4(5) this] 4(1) show ?case
    by auto
qed

declare msw_dig.simps [simp del] dig_neighbors.simps [simp del]

text \<open>
  \<^verbatim>\<open>msw_flag\<close> checks no bounds: whatever cell of \<^verbatim>\<open>visible\<close> the index names is
  read and, when unknown, flagged.
\<close>

definition msw_flag :: "codes \<Rightarrow> smb_mine \<Rightarrow> int \<Rightarrow> int \<Rightarrow> abort + (smb_mine \<times> int)" where
  "msw_flag k game r c =
     (if \<not> in_array (visible game) (msw_index game r c) then Inl MemoryFault
      else if visible game ! nat (msw_index game r c) = MSW_UNKNOWN k
        then Inr (game\<lparr>visible := (visible game)[nat (msw_index game r c) := MSW_FLAG k]\<rparr>, 1)
        else Inr (game, 1))"

text \<open>
  Cell codes for the examples: \<^verbatim>\<open>'0'\<close> clear (a count \<open>n\<close> is then the digit
  \<open>n\<close>), \<^verbatim>\<open>'*'\<close> mine, \<^verbatim>\<open>'?'\<close> unknown, \<^verbatim>\<open>'F'\<close> flag.
\<close>

definition ascii_codes :: codes where
  "ascii_codes = \<lparr>MSW_CLEAR = 0x30, MSW_MINE = 0x2A, MSW_UNKNOWN = 0x3F, MSW_FLAG = 0x46\<rparr>"

section \<open>Properties\<close>

lemma length_unknown_cells [simp]: "length (unknown_cells k i n v) = length v"
  by (induction k i n v rule: unknown_cells.induct) (subst unknown_cells.simps, simp)

lemma unknown_cells_nth:
  "0 \<le> i \<Longrightarrow> j < length v \<Longrightarrow>
   unknown_cells k i n v ! j = (if i \<le> int j \<and> int j < n then MSW_UNKNOWN k else v ! j)"
proof (induction k i n v rule: unknown_cells.induct)
  case (1 k i n v)
  show ?case
  proof (cases "i < n")
    case True
    with "1.IH" "1.prems" show ?thesis
      by (subst unknown_cells.simps) (auto simp: nth_list_update)
  next
    case False
    then show ?thesis by (subst unknown_cells.simps) auto
  qed
qed

lemma unknown_cells_all:
  "length v = nat n \<Longrightarrow> unknown_cells k 0 n v = replicate (nat n) (MSW_UNKNOWN k)"
  by (rule nth_equalityI) (auto simp: unknown_cells_nth)

text \<open>
  C9. A dig at coordinates outside the board returns the status \<open>0\<close>, which no other
  path of \<^verbatim>\<open>msw_dig\<close> returns, and hands back the session as it was: both boards
  untouched, the true grid still absent if it was, no random number drawn. The session
  that comes back is the one that went in, so it remains usable.
\<close>

theorem dig_out_of_bounds:
  "\<not> msw_in_bounds game row column \<Longrightarrow> msw_dig k game row column rs = Inr (game, 0, rs)"
  by (subst msw_dig.simps) simp

theorem dig_out_of_bounds_witness:
  "\<not> msw_in_bounds (smb_mine_create ascii_codes 2 2 1) (- 1) 0 \<and>
   msw_dig ascii_codes (smb_mine_create ascii_codes 2 2 1) (- 1) 0 [3]
     = Inr (smb_mine_create ascii_codes 2 2 1, 0, [3])"
proof -
  have h: "\<not> msw_in_bounds (smb_mine_create ascii_codes 2 2 1) (- 1) 0"
    by (simp add: msw_in_bounds_def)
  from dig_out_of_bounds[OF h] h show ?thesis by simp
qed

text \<open>
  C2. \<^verbatim>\<open>msw_flag\<close> has no bounds check. On a fresh 2 by 2 board the coordinates
  \<open>(0, 2)\<close> are out of bounds, their index \<open>2\<close> is the cell \<open>(1, 0)\<close>, and the call
  flags that cell and reports success.
\<close>

theorem flag_out_of_bounds_flags_a_cell:
  "\<not> msw_in_bounds (smb_mine_create ascii_codes 2 2 1) 0 2 \<and>
   msw_flag ascii_codes (smb_mine_create ascii_codes 2 2 1) 0 2
     = Inr (\<lparr>rows = 2, columns = 2, mines = 1, grid = None,
              visible = [0x3F, 0x3F, 0x46, 0x3F]\<rparr>, 1)"
  by code_simp

text \<open>
  C3, as the claim states it: a board of 2 by 2 cells with 4 mines has a mine count outside
  \<open>[0, rows * columns)\<close>, and \<^verbatim>\<open>smb_mine_create\<close> returns a session for it.
\<close>

theorem create_accepts_full_board:
  "\<not> (0 \<le> (4::int) \<and> (4::int) < 2 * 2) \<and>
   smb_mine_create ascii_codes 2 2 4
     = \<lparr>rows = 2, columns = 2, mines = 4, grid = None,
         visible = [0x3F, 0x3F, 0x3F, 0x3F]\<rparr>"
  by code_simp

lemma c_mul_fits:
  assumes "0 \<le> a * b" and "a * b \<le> INT_MAX"
  shows "c_mul a b = a * b"
proof -
  have "(a * b + 2147483648) mod 4294967296 = a * b + 2147483648"
    using assms by (intro mod_pos_pos_trivial) (simp_all add: INT_MAX_def)
  then show ?thesis by (simp add: c_mul_def)
qed

text \<open>
  Beyond the range of an \<^verbatim>\<open>int\<close> the size wraps: a board of 65536 by 65536 gets no
  visible cell at all.
\<close>

lemma create_wraps:
  "smb_mine_create k 65536 65536 0
     = \<lparr>rows = 65536, columns = 65536, mines = 0, grid = None, visible = []\<rparr>"
proof -
  have "c_mul 65536 65536 = 0" by (simp add: c_mul_def)
  then show ?thesis
    by (simp add: smb_mine_create_def smb_mine_init_def smb_new_def unknown_cells.simps)
qed

text \<open>
  C3, amended: \<^verbatim>\<open>smb_mine_create\<close> validates nothing and never fails. For sizes that
  are not negative, with a product that fits an \<^verbatim>\<open>int\<close>, and any mine count it
  returns a session that holds the three values as given, has no true grid yet, and shows
  \<open>rows * columns\<close> cells, all unknown.
\<close>

theorem create_stores_configuration:
  "0 \<le> rows' \<Longrightarrow> 0 \<le> columns' \<Longrightarrow> rows' * columns' \<le> INT_MAX \<Longrightarrow>
   smb_mine_create k rows' columns' mines'
     = \<lparr>rows = rows', columns = columns', mines = mines', grid = None,
         visible = replicate (nat (rows' * columns')) (MSW_UNKNOWN k)\<rparr>"
  by (simp add: smb_mine_create_def smb_mine_init_def smb_new_def unknown_cells_all c_mul_fits)

theorem create_stores_configuration_witness:
  "(0::int) \<le> 2 \<and> (0::int) \<le> 3 \<and> (2::int) * 3 \<le> INT_MAX \<and>
   smb_mine_create ascii_codes 2 3 7
     = \<lparr>rows = 2, columns = 3, mines = 7, grid = None,
         visible = replicate 6 (MSW_UNKNOWN ascii_codes)\<rparr>"
  using create_stores_configuration[of 2 3 ascii_codes 7] by (simp add: INT_MAX_def)

text \<open>
  C1. A flag does not protect a mine. On a 1 by 3 board with one mine, the first dig at
  \<open>(0, 2)\<close> with \<^verbatim>\<open>rand()\<close> returning \<open>0\<close> puts the mine at \<open>(0, 0)\<close>; the player flags
  \<open>(0, 0)\<close> and digs there: the flag is overwritten by the mine and the status is \<open>- 1\<close>.
\<close>

theorem dig_flagged_mine_detonates:
  "msw_dig ascii_codes (smb_mine_create ascii_codes 1 3 1) 0 2 [0]
     = Inr (\<lparr>rows = 1, columns = 3, mines = 1, grid = Some [0x2A, 0x31, 0x30],
              visible = [0x3F, 0x31, 0x30]\<rparr>, 1, []) \<and>
   msw_flag ascii_codes \<lparr>rows = 1, columns = 3, mines = 1, grid = Some [0x2A, 0x31, 0x30],
              visible = [0x3F, 0x31, 0x30]\<rparr> 0 0
     = Inr (\<lparr>rows = 1, columns = 3, mines = 1, grid = Some [0x2A, 0x31, 0x30],
              visible = [0x46, 0x31, 0x30]\<rparr>, 1) \<and>
   msw_in_bounds \<lparr>rows = 1, columns = 3, mines = 1, grid = Some [0x2A, 0x31, 0x30],
              visible = [0x46, 0x31, 0x30]\<rparr> 0 0 \<and>
   msw_dig ascii_codes \<lparr>rows = 1, columns = 3, mines = 1, grid = Some [0x2A, 0x31, 0x30],
              visible = [0x46, 0x31, 0x30]\<rparr> 0 0 []
     = Inr (\<lparr>rows = 1, columns = 3, mines = 1, grid = Some [0x2A, 0x31, 0x30],
              visible = [0x2A, 0x31, 0x30]\<rparr>, - 1, [])"
  by code_simp

text \<open>
  What digging may do to the visible board \<open>v\<close> over the true grid \<open>g\<close>: a cell keeps
  its value or takes the true one, and a flagged cell takes it only if it is clear or a
  mine.
\<close>

definition reveals :: "codes \<Rightarrow> cell list \<Rightarrow> cell list \<Rightarrow> cell list \<Rightarrow> bool" where
  "reveals k g v v' \<longleftrightarrow>
     length v' = length v \<and>
     (\<forall>j<length v. v' ! j = v ! j \<or>
        (v' ! j = g ! j \<and> (v ! j = MSW_FLAG k \<longrightarrow> g ! j = MSW_CLEAR k \<or> g ! j = MSW_MINE k)))"

lemma dig_started:
  "grid game = Some g \<Longrightarrow>
   msw_dig k game row column rs =
     (if \<not> msw_in_bounds game row column then Inr (game, 0, rs)
      else if \<not> in_array g (msw_index game row column) \<or>
              \<not> in_array (visible game) (msw_index game row column)
      then Inl MemoryFault
      else if g ! nat (msw_index game row column) = MSW_CLEAR k \<and>
              visible game ! nat (msw_index game row column) \<noteq> MSW_CLEAR k
      then
        (case dig_neighbors k
                (game\<lparr>visible := (visible game)
                    [nat (msw_index game row column) := MSW_CLEAR k]\<rparr>)
                row column 0 rs of
           Inl e \<Rightarrow> Inl e
         | Inr (game2, rs2) \<Rightarrow> Inr (game2, 1, rs2))
      else if g ! nat (msw_index game row column) = MSW_MINE k
      then Inr (game\<lparr>visible := (visible game)
                  [nat (msw_index game row column) := MSW_MINE k]\<rparr>, - 1, rs)
      else if visible game ! nat (msw_index game row column) = MSW_FLAG k
      then Inr (game, 1, rs)
      else Inr (game\<lparr>visible := (visible game)
                  [nat (msw_index game row column) :=
                     g ! nat (msw_index game row column)]\<rparr>, 1, rs))"
  by (subst msw_dig.simps) simp

lemma reveals_refl: "reveals k g v v"
  by (simp add: reveals_def)

lemma reveals_trans:
  assumes "reveals k g v1 v2" and "reveals k g v2 v3"
  shows "reveals k g v1 v3"
  unfolding reveals_def
proof (intro conjI allI impI)
  show "length v3 = length v1"
    using assms by (simp add: reveals_def)
next
  fix j assume j: "j < length v1"
  then have 1: "v2 ! j = v1 ! j \<or>
        (v2 ! j = g ! j \<and> (v1 ! j = MSW_FLAG k \<longrightarrow> g ! j = MSW_CLEAR k \<or> g ! j = MSW_MINE k))"
    using assms(1) by (simp add: reveals_def)
  from j have 2: "v3 ! j = v2 ! j \<or>
        (v3 ! j = g ! j \<and> (v2 ! j = MSW_FLAG k \<longrightarrow> g ! j = MSW_CLEAR k \<or> g ! j = MSW_MINE k))"
    using assms by (simp add: reveals_def)
  from 1 2 show "v3 ! j = v1 ! j \<or>
        (v3 ! j = g ! j \<and> (v1 ! j = MSW_FLAG k \<longrightarrow> g ! j = MSW_CLEAR k \<or> g ! j = MSW_MINE k))"
    by metis
qed

lemma reveals_write:
  assumes "v ! i = MSW_FLAG k \<longrightarrow> g ! i = MSW_CLEAR k \<or> g ! i = MSW_MINE k"
  shows "reveals k g v (v[i := g ! i])"
  unfolding reveals_def
proof (intro conjI allI impI)
  fix j assume "j < length v"
  then show "v[i := g ! i] ! j = v ! j \<or>
     (v[i := g ! i] ! j = g ! j \<and> (v ! j = MSW_FLAG k \<longrightarrow> g ! j = MSW_CLEAR k \<or> g ! j = MSW_MINE k))"
    using assms by (cases "j = i") auto
qed simp

lemma dig_frame:
  "msw_dig k game row column rs = Inr (game', st, rs') \<Longrightarrow> grid game = Some g \<Longrightarrow>
   game' = game\<lparr>visible := visible game'\<rparr> \<and> rs' = rs \<and>
   reveals k g (visible game) (visible game')"
  "dig_neighbors k game row column n rs = Inr (game'', rs'') \<Longrightarrow> grid game = Some g \<Longrightarrow>
   game'' = game\<lparr>visible := visible game''\<rparr> \<and> rs'' = rs \<and>
   reveals k g (visible game) (visible game'')"
proof (induction k game row column rs and k game row column n rs
       arbitrary: game' st rs' and game'' rs'' rule: msw_dig_dig_neighbors.induct)
  case (1 k game row column rs)
  let ?i = "nat (msw_index game row column)"
  let ?v = "visible game"
  note g = \<open>grid game = Some g\<close>
  show ?case
  proof (cases "msw_in_bounds game row column \<and> g ! ?i = MSW_CLEAR k \<and> ?v ! ?i \<noteq> MSW_CLEAR k")
    case True
    let ?game2 = "game\<lparr>visible := ?v[?i := MSW_CLEAR k]\<rparr>"
    from "1.prems"(1) True g obtain rs2 where
      arr: "in_array g (msw_index game row column)" "in_array ?v (msw_index game row column)"
      and d: "dig_neighbors k ?game2 row column 0 rs = Inr (game', rs2)" and "rs' = rs2"
      by (auto simp: dig_started split: if_splits sum.splits)
    have "game' = ?game2\<lparr>visible := visible game'\<rparr> \<and> rs2 = rs \<and>
          reveals k g (visible ?game2) (visible game')"
      using "1.IH"[of "(game, rs)" game rs g game' rs2] True g arr d by simp
    moreover have "reveals k g ?v (visible ?game2)"
      using reveals_write[of ?v ?i k g] True by simp
    ultimately show ?thesis
      using \<open>rs' = rs2\<close> reveals_trans by auto
  next
    case False
    with "1.prems"(1) g have
      "game' = game \<and> rs' = rs \<or>
       game' = game\<lparr>visible := ?v[?i := g ! ?i]\<rparr> \<and> rs' = rs \<and>
         (?v ! ?i = MSW_FLAG k \<longrightarrow> g ! ?i = MSW_CLEAR k \<or> g ! ?i = MSW_MINE k)"
      by (auto simp: dig_started split: if_splits)
    then show ?thesis
      using reveals_refl reveals_write[of ?v ?i k g] by auto
  qed
next
  case (2 k game row column n rs)
  note g = \<open>grid game = Some g\<close>
  show ?case
  proof (cases "n < NUM_NEIGHBORS")
    case False
    with "2.prems" show ?thesis
      by (simp add: dig_neighbors.simps reveals_refl)
  next
    case True
    with "2.prems"(1) obtain game1 st1 rs1 where
      d: "msw_dig k game (row + rnbr ! n) (column + cnbr ! n) rs = Inr (game1, st1, rs1)"
      and r: "dig_neighbors k game1 row column (n + 1) rs1 = Inr (game'', rs'')"
      by (subst (asm) dig_neighbors.simps) (auto split: sum.splits)
    from "2.IH"(1)[OF True d g] have
      1: "game1 = game\<lparr>visible := visible game1\<rparr>" "rs1 = rs"
         "reveals k g (visible game) (visible game1)"
      by simp_all
    from 1(1) g have g1: "grid game1 = Some g"
      by (metis smb_mine.select_convs(4) smb_mine.surjective smb_mine.update_convs(5))
    from "2.IH"(2)[OF True d refl refl r g1] have
      2: "game'' = game1\<lparr>visible := visible game''\<rparr>" "rs'' = rs1"
         "reveals k g (visible game1) (visible game'')"
      by simp_all
    from 1(1) 2(1) have "game'' = game\<lparr>visible := visible game''\<rparr>"
      by (metis smb_mine.update_convs(5) smb_mine.surjective)
    with 1 2 show ?thesis
      using reveals_trans by blast
  qed
qed

lemma frame_grid:
  "game' = game\<lparr>visible := v\<rparr> \<Longrightarrow> grid game' = grid game \<and> rows game' = rows game \<and>
     columns game' = columns game \<and> mines game' = mines game \<and> visible game' = v"
  by simp

lemma dig_induct [case_names dig neighbors]:
  fixes P :: "smb_mine \<Rightarrow> int \<Rightarrow> int \<Rightarrow> bool" and Q :: "smb_mine \<Rightarrow> int \<Rightarrow> int \<Rightarrow> nat \<Rightarrow> bool"
  assumes dig: "\<And>game row column.
      \<lbrakk>grid game = Some g;
       \<lbrakk>msw_in_bounds game row column; in_array g (msw_index game row column);
        in_array (visible game) (msw_index game row column);
        g ! nat (msw_index game row column) = MSW_CLEAR k;
        visible game ! nat (msw_index game row column) \<noteq> MSW_CLEAR k\<rbrakk>
       \<Longrightarrow> Q (game\<lparr>visible := (visible game)
                    [nat (msw_index game row column) := MSW_CLEAR k]\<rparr>) row column 0\<rbrakk>
      \<Longrightarrow> P game row column"
    and neighbors: "\<And>game row column n.
      \<lbrakk>grid game = Some g;
       n < NUM_NEIGHBORS \<Longrightarrow> P game (row + rnbr ! n) (column + cnbr ! n);
       \<And>game' st. \<lbrakk>n < NUM_NEIGHBORS;
          msw_dig k game (row + rnbr ! n) (column + cnbr ! n) rs = Inr (game', st, rs);
          grid game' = Some g\<rbrakk> \<Longrightarrow> Q game' row column (n + 1)\<rbrakk>
      \<Longrightarrow> Q game row column n"
  shows "grid game = Some g \<Longrightarrow> P game row column"
    and "grid game = Some g \<Longrightarrow> Q game row column n"
proof -
  have 1: "k' = k \<and> rs' = rs \<and> grid game = Some g \<longrightarrow> P game row column"
    and 2: "k'' = k \<and> rs'' = rs \<and> grid game = Some g \<longrightarrow> Q game row column n"
    for k' rs' k'' rs'' game row column n
  proof (induction k' game row column rs' and k'' game row column n rs''
         rule: msw_dig_dig_neighbors.induct)
    case (1 k' game row column rs')
    show ?case
    proof (intro impI, elim conjE)
      assume eq: "k' = k" "rs' = rs" and g: "grid game = Some g"
      show "P game row column"
      proof (rule dig[OF g])
        assume "msw_in_bounds game row column" "in_array g (msw_index game row column)"
          "in_array (visible game) (msw_index game row column)"
          "g ! nat (msw_index game row column) = MSW_CLEAR k"
          "visible game ! nat (msw_index game row column) \<noteq> MSW_CLEAR k"
        then show "Q (game\<lparr>visible := (visible game)
                    [nat (msw_index game row column) := MSW_CLEAR k]\<rparr>) row column 0"
          using "1.IH"[of "(game, rs)" game rs g] eq g by simp
      qed
    qed
  next
    case (2 k'' game row column n rs'')
    show ?case
    proof (intro impI, elim conjE)
      assume eq: "k'' = k" "rs'' = rs" and g: "grid game = Some g"
      show "Q game row column n"
      proof (rule neighbors[OF g])
        assume "n < NUM_NEIGHBORS"
        then show "P game (row + rnbr ! n) (column + cnbr ! n)"
          using "2.IH"(1) eq g by simp
      next
        fix game' st
        assume n: "n < NUM_NEIGHBORS"
          and d: "msw_dig k game (row + rnbr ! n) (column + cnbr ! n) rs = Inr (game', st, rs)"
          and g': "grid game' = Some g"
        show "Q game' row column (n + 1)"
          using "2.IH"(2)[OF n, of "(game', st, rs)" game' "(st, rs)" st rs] d g' eq by simp
      qed
    qed
  qed
  show "grid game = Some g \<Longrightarrow> P game row column"
    using 1[of k rs game row column] by simp
  show "grid game = Some g \<Longrightarrow> Q game row column n"
    using 2[of k rs game row column n] by simp
qed

lemma neighbors_step:
  assumes "grid game = Some g" and "n < NUM_NEIGHBORS"
    and "dig_neighbors k game row column n rs = Inr (game'', rs'')"
  obtains game' st where
    "msw_dig k game (row + rnbr ! n) (column + cnbr ! n) rs = Inr (game', st, rs)"
    and "grid game' = Some g"
    and "dig_neighbors k game' row column (n + 1) rs = Inr (game'', rs'')"
proof -
  from assms(2,3) obtain game1 st1 rs1 where
    d: "msw_dig k game (row + rnbr ! n) (column + cnbr ! n) rs = Inr (game1, st1, rs1)"
    and r: "dig_neighbors k game1 row column (n + 1) rs1 = Inr (game'', rs'')"
    by (subst (asm) dig_neighbors.simps) (auto split: sum.splits)
  from dig_frame(1)[OF d assms(1)] have "rs1 = rs" and "grid game1 = Some g"
    using frame_grid[where game' = game1 and game = game and v = "visible game1"] assms(1)
    by simp_all
  with d r that show thesis by simp
qed

lemma dig_first:
  assumes "grid game = None" and "msw_in_bounds game row column"
  shows "msw_dig k game row column rs =
     (case msw_initial_grid k game row column rs of
        Inl e \<Rightarrow> Inl e
      | Inr (game1, rs1) \<Rightarrow> msw_dig k game1 row column rs1)"
proof (cases "msw_initial_grid k game row column rs")
  case (Inl e)
  with assms show ?thesis by (subst msw_dig.simps) simp
next
  case (Inr p)
  obtain game1 rs1 where p: "p = (game1, rs1)" by (cases p)
  with Inr obtain g where g: "game1 = game\<lparr>grid := Some g\<rparr>"
    using initial_grid_result by blast
  then have b: "msw_in_bounds game1 row column"
    using assms(2) by (simp add: msw_in_bounds_def)
  from g have gg: "grid game1 = Some g" by simp
  have "msw_dig k game row column rs = msw_dig k game1 row column rs1"
    using assms Inr p b gg
    by (subst msw_dig.simps, subst dig_started[OF gg]) simp
  with Inr p show ?thesis by simp
qed

lemma dig_grid:
  assumes "msw_dig k game row column rs = Inr (game', st, rs')" and "grid game' = None"
  shows "game' = game \<and> st = 0 \<and> rs' = rs \<and> \<not> msw_in_bounds game row column"
proof (cases "msw_in_bounds game row column")
  case False
  with assms show ?thesis by (subst (asm) msw_dig.simps) simp
next
  case True
  show ?thesis
  proof (cases "grid game")
    case None
    with True assms(1) obtain game1 rs1 where
      i: "msw_initial_grid k game row column rs = Inr (game1, rs1)"
      and d: "msw_dig k game1 row column rs1 = Inr (game', st, rs')"
      by (auto simp: dig_first split: sum.splits)
    from i obtain g where "grid game1 = Some g"
      using initial_grid_result by fastforce
    from dig_frame(1)[OF d this] this assms(2) show ?thesis
      using frame_grid[where game' = game' and game = game1 and v = "visible game'"] by simp
  next
    case (Some g)
    from dig_frame(1)[OF assms(1) this] this assms(2) show ?thesis
      using frame_grid[where game' = game' and game = game and v = "visible game'"] by simp
  qed
qed

text \<open>
  A cell of the visible board is settled when it shows its true value, or is a flagged
  cell whose true value is not clear.
\<close>

definition settled :: "codes \<Rightarrow> cell list \<Rightarrow> cell list \<Rightarrow> nat \<Rightarrow> bool" where
  "settled k g v i \<longleftrightarrow> v ! i = g ! i \<or> (v ! i = MSW_FLAG k \<and> g ! i \<noteq> MSW_CLEAR k)"

lemma reveals_settled:
  assumes "reveals k g v v'" and "settled k g v i" and "i < length v" and "g ! i \<noteq> MSW_MINE k"
  shows "settled k g v' i"
  using assms unfolding reveals_def settled_def by metis

lemma dig_settles_started:
  assumes g: "grid game = Some g" and b: "msw_in_bounds game row column"
    and d: "msw_dig k game row column rs = Inr (game', st, rs')"
    and nm: "g ! nat (msw_index game row column) \<noteq> MSW_MINE k"
  shows "in_array g (msw_index game row column)"
    and "in_array (visible game) (msw_index game row column)"
    and "st = 1" and "settled k g (visible game') (nat (msw_index game row column))"
proof -
  let ?i = "nat (msw_index game row column)"
  let ?v = "visible game"
  from d g b show arr: "in_array g (msw_index game row column)"
    "in_array (visible game) (msw_index game row column)"
    by (auto simp: dig_started split: if_splits)
  show "st = 1"
    using d g b nm by (auto simp: dig_started split: if_splits sum.splits)
  show "settled k g (visible game') ?i"
  proof (cases "g ! ?i = MSW_CLEAR k \<and> ?v ! ?i \<noteq> MSW_CLEAR k")
    case True
    let ?game2 = "game\<lparr>visible := ?v[?i := MSW_CLEAR k]\<rparr>"
    from d g b arr True obtain rs2 where
      "dig_neighbors k ?game2 row column 0 rs = Inr (game', rs2)"
      by (auto simp: dig_started split: sum.splits)
    from dig_frame(2)[OF this, of g] g
    have "reveals k g (?v[?i := MSW_CLEAR k]) (visible game')" by simp
    moreover have "settled k g (?v[?i := MSW_CLEAR k]) ?i"
      using True arr by (simp add: settled_def in_array_nat)
    ultimately show ?thesis
      using reveals_settled nm arr by (simp add: in_array_nat)
  next
    case False
    with d g b arr nm have
      "game' = game \<and> ?v ! ?i = MSW_FLAG k \<or> game' = game\<lparr>visible := ?v[?i := g ! ?i]\<rparr>"
      by (auto simp: dig_started split: if_splits)
    with False arr show ?thesis
      by (auto simp: settled_def in_array_nat)
  qed
qed

text \<open>
  C8. A dig at an in-bounds cell that is no mine returns the status \<open>1\<close>, and the same dig
  on the session it returned gives that session back unchanged, with the same status and
  without drawing a random number. The first dig may be the one that generates the grid.
\<close>

theorem dig_twice:
  assumes "msw_dig k game row column rs = Inr (game1, st1, rs1)"
    and "msw_in_bounds game row column"
    and "grid game1 = Some g"
    and "g ! nat (msw_index game1 row column) \<noteq> MSW_MINE k"
  shows "st1 = 1 \<and> msw_dig k game1 row column rs1 = Inr (game1, st1, rs1)"
proof -
  obtain game0 rs0 where
    g0: "grid game0 = Some g" and d0: "msw_dig k game0 row column rs0 = Inr (game1, st1, rs1)"
    and b0: "msw_in_bounds game0 row column"
  proof (cases "grid game")
    case None
    with assms(1,2) obtain game0 rs0 where
      i: "msw_initial_grid k game row column rs = Inr (game0, rs0)"
      and d: "msw_dig k game0 row column rs0 = Inr (game1, st1, rs1)"
      by (auto simp: dig_first split: sum.splits)
    from i obtain g0 where g0: "game0 = game\<lparr>grid := Some g0\<rparr>"
      using initial_grid_result by blast
    from dig_frame(1)[OF d, of g0] g0 assms(3) have "g0 = g"
      using frame_grid[where game' = game1 and game = game0 and v = "visible game1"] by simp
    with g0 d assms(2) that[of game0 rs0] show thesis
      by (simp add: msw_in_bounds_def)
  next
    case (Some g')
    from dig_frame(1)[OF assms(1) this] assms(3) Some have "g' = g"
      using frame_grid[where game' = game1 and game = game and v = "visible game1"] by simp
    with Some assms(1,2) that[of game rs] show thesis by simp
  qed
  let ?i = "nat (msw_index game1 row column)"
  from dig_frame(1)[OF d0 g0] have fr: "game1 = game0\<lparr>visible := visible game1\<rparr>"
    and rv: "reveals k g (visible game0) (visible game1)" by simp_all
  have same: "msw_index game0 row column = msw_index game1 row column"
    "msw_in_bounds game1 row column"
    using frame_grid[OF fr] b0 by (simp_all add: msw_index_def msw_in_bounds_def)
  with assms(4) have nm: "g ! nat (msw_index game0 row column) \<noteq> MSW_MINE k" by simp
  note s = dig_settles_started[OF g0 b0 d0 nm]
  have arr: "in_array g (msw_index game1 row column)"
    "in_array (visible game1) (msw_index game1 row column)"
    using s(1,2) same rv by (simp_all add: in_array_def reveals_def)
  have st: "settled k g (visible game1) ?i"
    using s(4) same by simp
  have "msw_dig k game1 row column rs1 = Inr (game1, 1, rs1)"
  proof (cases "visible game1 ! ?i = MSW_FLAG k \<and> g ! ?i \<noteq> MSW_CLEAR k")
    case True
    with assms(3,4) same arr show ?thesis
      by (simp add: dig_started)
  next
    case False
    with st have "visible game1 ! ?i = g ! ?i" by (auto simp: settled_def)
    then have "game1\<lparr>visible := (visible game1)[?i := g ! ?i]\<rparr> = game1"
      by (metis list_update_id smb_mine.surjective smb_mine.update_convs(5))
    with \<open>visible game1 ! ?i = g ! ?i\<close> assms(3,4) same arr show ?thesis
      by (simp add: dig_started)
  qed
  with s(3) show ?thesis by simp
qed

theorem dig_twice_witness:
  "msw_dig ascii_codes (smb_mine_create ascii_codes 1 3 1) 0 2 [0]
     = Inr (\<lparr>rows = 1, columns = 3, mines = 1, grid = Some [0x2A, 0x31, 0x30],
              visible = [0x3F, 0x31, 0x30]\<rparr>, 1, []) \<and>
   msw_in_bounds (smb_mine_create ascii_codes 1 3 1) 0 2 \<and>
   [0x2A, 0x31, 0x30 :: cell] ! nat (msw_index \<lparr>rows = 1, columns = 3, mines = 1,
       grid = Some [0x2A, 0x31, 0x30], visible = [0x3F, 0x31, 0x30]\<rparr> 0 2)
     \<noteq> MSW_MINE ascii_codes \<and>
   msw_dig ascii_codes \<lparr>rows = 1, columns = 3, mines = 1, grid = Some [0x2A, 0x31, 0x30],
              visible = [0x3F, 0x31, 0x30]\<rparr> 0 2 []
     = Inr (\<lparr>rows = 1, columns = 3, mines = 1, grid = Some [0x2A, 0x31, 0x30],
              visible = [0x3F, 0x31, 0x30]\<rparr>, 1, [])"
proof -
  let ?g1 = "\<lparr>rows = 1, columns = 3, mines = 1, grid = Some [0x2A, 0x31, 0x30],
              visible = [0x3F, 0x31, 0x30 :: cell]\<rparr>"
  have 1: "msw_dig ascii_codes (smb_mine_create ascii_codes 1 3 1) 0 2 [0] = Inr (?g1, 1, [])"
    by code_simp
  have 2: "msw_in_bounds (smb_mine_create ascii_codes 1 3 1) 0 2"
    by code_simp
  have 3: "grid ?g1 = Some [0x2A, 0x31, 0x30]" by simp
  have 4: "[0x2A, 0x31, 0x30 :: cell] ! nat (msw_index ?g1 0 2) \<noteq> MSW_MINE ascii_codes"
    by code_simp
  from dig_twice[OF 1 2 3 4] 1 2 4 show ?thesis by simp
qed

lemma neighbor_cases:
  "n < NUM_NEIGHBORS \<Longrightarrow> n \<in> {0, 1, 2, 3, 4, 5, 6, 7}"
  unfolding NUM_NEIGHBORS_def by auto

lemma offsets_distinct:
  assumes "n < NUM_NEIGHBORS" and "n' < NUM_NEIGHBORS"
    and "rnbr ! n = rnbr ! n'" and "cnbr ! n = cnbr ! n'"
  shows "n = n'"
  using neighbor_cases[OF assms(1)] neighbor_cases[OF assms(2)] assms(3,4)
  by (auto simp: rnbr_def cnbr_def)

lemma offsets_opposite:
  assumes "n < NUM_NEIGHBORS"
  shows "rnbr ! (7 - n) = - (rnbr ! n)" and "cnbr ! (7 - n) = - (cnbr ! n)"
  using neighbor_cases[OF assms] by (auto simp: rnbr_def cnbr_def)

lemma index_inject:
  assumes "msw_in_bounds obj r c" and "msw_in_bounds obj r' c'"
    and "msw_index obj r c = msw_index obj r' c'"
  shows "r = r' \<and> c = c'"
proof -
  let ?C = "columns obj"
  from assms(1,2) have c: "0 \<le> c" "c < ?C" "0 \<le> c'" "c' < ?C"
    by (simp_all add: msw_in_bounds_def)
  have "(r * ?C + c) div ?C = r" "(r' * ?C + c') div ?C = r'"
    using c by simp_all
  with assms(3) have "r = r'" by (simp add: msw_index_def)
  with assms(3) show ?thesis by (simp add: msw_index_def)
qed

lemma index_nat_inject:
  assumes "msw_in_bounds obj r c" and "msw_in_bounds obj r' c'"
    and "nat (msw_index obj r c) = nat (msw_index obj r' c')"
  shows "r = r' \<and> c = c'"
  using assms index_in_range(1)[of obj r c] index_in_range(1)[of obj r' c'] index_inject
  by (metis nat_eq_iff)

text \<open>The cell of the array \<open>g\<close> at row \<open>r\<close>, column \<open>c\<close>.\<close>

definition cell_at :: "smb_mine \<Rightarrow> cell list \<Rightarrow> int \<Rightarrow> int \<Rightarrow> cell" where
  "cell_at obj g r c = g ! nat (msw_index obj r c)"

text \<open>\<open>(r, c)\<close> is one of the eight neighbours of \<open>(i, j)\<close>.\<close>

definition adjacent :: "int \<Rightarrow> int \<Rightarrow> int \<Rightarrow> int \<Rightarrow> bool" where
  "adjacent i j r c \<longleftrightarrow> (\<exists>n<NUM_NEIGHBORS. r = i + rnbr ! n \<and> c = j + cnbr ! n)"

lemma adjacent_sym: "adjacent i j r c \<longleftrightarrow> adjacent r c i j"
proof -
  have "adjacent r c i j" if "adjacent i j r c" for i j r c :: int
  proof -
    from that obtain n where n: "n < NUM_NEIGHBORS" "r = i + rnbr ! n" "c = j + cnbr ! n"
      by (auto simp: adjacent_def)
    then have "7 - n < NUM_NEIGHBORS" "i = r + rnbr ! (7 - n)" "j = c + cnbr ! (7 - n)"
      using offsets_opposite[OF n(1)] by (simp_all add: NUM_NEIGHBORS_def)
    then show ?thesis unfolding adjacent_def by blast
  qed
  then show ?thesis by blast
qed

lemma adjacent_irrefl: "\<not> adjacent i j i j"
proof
  assume "adjacent i j i j"
  then obtain n where "n < NUM_NEIGHBORS" "rnbr ! n = 0" "cnbr ! n = 0"
    by (auto simp: adjacent_def)
  then show False
    using neighbor_cases[of n] by (auto simp: rnbr_def cnbr_def)
qed

lemma count_neighbors_cell:
  assumes "length g = nat (rows obj * columns obj)" and "msw_in_bounds obj r c"
  shows "cell_at obj (count_neighbors k obj i j n g) r c =
     (if cell_at obj g r c \<noteq> MSW_MINE k \<and>
         (\<exists>n'. n \<le> n' \<and> n' < NUM_NEIGHBORS \<and> r = i + rnbr ! n' \<and> c = j + cnbr ! n')
      then cell_at obj g r c + 1 else cell_at obj g r c)"
  using assms
proof (induction k obj i j n g rule: count_neighbors.induct)
  case (1 k obj i j n g)
  show ?case
  proof (cases "n < NUM_NEIGHBORS")
    case False
    then show ?thesis by (subst count_neighbors.simps) auto
  next
    case True
    let ?r = "i + rnbr ! n" and ?c = "j + cnbr ! n"
    let ?x = "nat (msw_index obj ?r ?c)"
    let ?g1 = "if msw_in_bounds obj ?r ?c \<and> g ! ?x \<noteq> MSW_MINE k
               then g[?x := g ! ?x + 1] else g"
    have len: "length ?g1 = nat (rows obj * columns obj)"
      using "1.prems" by simp
    have unf: "count_neighbors k obj i j n g = count_neighbors k obj i j (n + 1) ?g1"
      using True by (subst count_neighbors.simps) simp
    note IH = "1.IH"[OF True len "1.prems"(2)]
    show ?thesis
    proof (cases "r = ?r \<and> c = ?c")
      case hit: True
      then have later: "\<not> (\<exists>n'. n + 1 \<le> n' \<and> n' < NUM_NEIGHBORS \<and>
                           r = i + rnbr ! n' \<and> c = j + cnbr ! n')"
        using offsets_distinct[OF True] by fastforce
      have x: "?x < length g"
        using hit "1.prems" index_nat_less by blast
      have "cell_at obj ?g1 r c =
              (if cell_at obj g r c \<noteq> MSW_MINE k then cell_at obj g r c + 1
               else cell_at obj g r c)"
        using hit "1.prems"(2) x by (simp add: cell_at_def)
      moreover have "\<exists>n'. n \<le> n' \<and> n' < NUM_NEIGHBORS \<and> r = i + rnbr ! n' \<and> c = j + cnbr ! n'"
        using hit True by blast
      ultimately show ?thesis
        unfolding unf IH using later by auto
    next
      case miss: False
      have "cell_at obj ?g1 r c = cell_at obj g r c"
      proof (cases "msw_in_bounds obj ?r ?c \<and> g ! ?x \<noteq> MSW_MINE k")
        case True
        then have "?x \<noteq> nat (msw_index obj r c)"
          using index_nat_inject[of obj ?r ?c r c] "1.prems"(2) miss by blast
        with True show ?thesis by (simp add: cell_at_def)
      next
        case False
        then show ?thesis by auto
      qed
      moreover have "(\<exists>n'. n \<le> n' \<and> n' < NUM_NEIGHBORS \<and> r = i + rnbr ! n' \<and> c = j + cnbr ! n')
        \<longleftrightarrow> (\<exists>n'. n + 1 \<le> n' \<and> n' < NUM_NEIGHBORS \<and> r = i + rnbr ! n' \<and> c = j + cnbr ! n')"
        using miss by (metis Suc_eq_plus1 Suc_leI le_neq_implies_less add_leD1)
      ultimately show ?thesis
        unfolding unf IH by auto
    qed
  qed
qed

lemma count_neighbors_adjacent:
  assumes "length g = nat (rows obj * columns obj)" and "msw_in_bounds obj r c"
  shows "cell_at obj (count_neighbors k obj i j 0 g) r c =
     (if cell_at obj g r c \<noteq> MSW_MINE k \<and> adjacent i j r c
      then cell_at obj g r c + 1 else cell_at obj g r c)"
  unfolding count_neighbors_cell[OF assms] adjacent_def by simp

text \<open>
  The counts \<open>0\<close> to \<open>8\<close>, added to the code of a clear cell, never give the code of
  a mine. A header that breaks this makes the counting pass take a counted cell for a mine.
\<close>

definition counts_fit :: "codes \<Rightarrow> bool" where
  "counts_fit k \<longleftrightarrow> MSW_MINE k \<notin> (\<lambda>j. MSW_CLEAR k + of_nat j) ` {0..8::nat}"

text \<open>
  The mines next to \<open>(r, c)\<close> that the counting pass has handled when it arrives at
  \<open>(i, j)\<close>, going through the board row by row.
\<close>

definition mines_before ::
  "codes \<Rightarrow> smb_mine \<Rightarrow> cell list \<Rightarrow> int \<Rightarrow> int \<Rightarrow> int \<Rightarrow> int \<Rightarrow> (int \<times> int) set" where
  "mines_before k obj g0 i j r c =
     {(i', j'). msw_in_bounds obj i' j' \<and> (i' < i \<or> i' = i \<and> j' < j) \<and>
                cell_at obj g0 i' j' = MSW_MINE k \<and> adjacent i' j' r c}"

definition counted ::
  "codes \<Rightarrow> smb_mine \<Rightarrow> cell list \<Rightarrow> int \<Rightarrow> int \<Rightarrow> cell list \<Rightarrow> bool" where
  "counted k obj g0 i j g \<longleftrightarrow>
     length g = nat (rows obj * columns obj) \<and>
     (\<forall>r c. msw_in_bounds obj r c \<longrightarrow>
        cell_at obj g r c =
          (if cell_at obj g0 r c = MSW_MINE k then MSW_MINE k
           else MSW_CLEAR k + of_nat (card (mines_before k obj g0 i j r c))))"

lemma adjacent_image:
  "{(i', j'). adjacent i' j' r c} = (\<lambda>n. (r + rnbr ! n, c + cnbr ! n)) ` {..<NUM_NEIGHBORS}"
  by (subst adjacent_sym) (auto simp: adjacent_def)

lemma mines_before_bound:
  "finite (mines_before k obj g0 i j r c)" "card (mines_before k obj g0 i j r c) \<le> 8"
proof -
  let ?A = "(\<lambda>n. (r + rnbr ! n, c + cnbr ! n)) ` {..<NUM_NEIGHBORS}"
  have sub: "mines_before k obj g0 i j r c \<subseteq> ?A"
    unfolding adjacent_image[symmetric] mines_before_def by blast
  then show "finite (mines_before k obj g0 i j r c)"
    by (rule finite_subset) simp
  have "card (mines_before k obj g0 i j r c) \<le> card ?A"
    using sub by (intro card_mono) simp_all
  also have "\<dots> \<le> card {..<NUM_NEIGHBORS}" by (rule card_image_le) simp
  finally show "card (mines_before k obj g0 i j r c) \<le> 8"
    by (simp add: NUM_NEIGHBORS_def)
qed

lemma counted_mine_iff:
  assumes "counted k obj g0 i j g" and "counts_fit k" and "msw_in_bounds obj r c"
  shows "cell_at obj g r c = MSW_MINE k \<longleftrightarrow> cell_at obj g0 r c = MSW_MINE k"
proof -
  have "MSW_MINE k \<noteq> MSW_CLEAR k + of_nat (card (mines_before k obj g0 i j r c))"
    using assms(2) mines_before_bound(2)[of k obj g0 i j r c]
    unfolding counts_fit_def by (metis atLeastAtMost_iff image_eqI le0)
  with assms(1,3) show ?thesis
    unfolding counted_def by metis
qed

lemma mines_before_step:
  assumes "msw_in_bounds obj i j"
  shows "mines_before k obj g0 i (j + 1) r c =
     (if cell_at obj g0 i j = MSW_MINE k \<and> adjacent i j r c
      then insert (i, j) (mines_before k obj g0 i j r c)
      else mines_before k obj g0 i j r c)"
    and "(i, j) \<notin> mines_before k obj g0 i j r c"
proof -
  have "j' < j + 1 \<longleftrightarrow> j' < j \<or> j' = j" for j' by arith
  then show "mines_before k obj g0 i (j + 1) r c =
     (if cell_at obj g0 i j = MSW_MINE k \<and> adjacent i j r c
      then insert (i, j) (mines_before k obj g0 i j r c)
      else mines_before k obj g0 i j r c)"
    using assms unfolding mines_before_def by auto
  show "(i, j) \<notin> mines_before k obj g0 i j r c"
    unfolding mines_before_def by simp
qed

lemma mines_before_row:
  "mines_before k obj g0 i (columns obj) r c = mines_before k obj g0 (i + 1) 0 r c"
  unfolding mines_before_def msw_in_bounds_def by auto

lemma count_columns_counted:
  assumes "counted k obj g0 i j g" and "counts_fit k"
    and "0 \<le> i" and "i < rows obj" and "0 \<le> j" and "j \<le> columns obj"
  shows "counted k obj g0 i (columns obj) (count_columns k obj i j g)"
  using assms
proof (induction k obj i j g rule: count_columns.induct)
  case (1 k obj i j g)
  show ?case
  proof (cases "j < columns obj")
    case False
    with "1.prems" show ?thesis
      by (subst count_columns.simps) simp
  next
    case True
    then have b: "msw_in_bounds obj i j"
      using "1.prems" by (simp add: msw_in_bounds_def)
    let ?g1 = "if g ! nat (msw_index obj i j) = MSW_MINE k
               then count_neighbors k obj i j 0 g else g"
    have len: "length g = nat (rows obj * columns obj)"
      using "1.prems"(1) by (simp add: counted_def)
    have mine: "g ! nat (msw_index obj i j) = MSW_MINE k \<longleftrightarrow> cell_at obj g0 i j = MSW_MINE k"
      using counted_mine_iff[OF "1.prems"(1,2) b] by (simp add: cell_at_def)
    have "counted k obj g0 i (j + 1) ?g1"
      unfolding counted_def
    proof (intro conjI allI impI)
      show "length ?g1 = nat (rows obj * columns obj)"
        using len by simp
    next
      fix r c assume rc: "msw_in_bounds obj r c"
      have old: "cell_at obj g r c =
          (if cell_at obj g0 r c = MSW_MINE k then MSW_MINE k
           else MSW_CLEAR k + of_nat (card (mines_before k obj g0 i j r c)))"
        using "1.prems"(1) rc by (simp add: counted_def)
      have m: "cell_at obj g r c = MSW_MINE k \<longleftrightarrow> cell_at obj g0 r c = MSW_MINE k"
        using counted_mine_iff[OF "1.prems"(1,2) rc] .
      show "cell_at obj ?g1 r c =
          (if cell_at obj g0 r c = MSW_MINE k then MSW_MINE k
           else MSW_CLEAR k + of_nat (card (mines_before k obj g0 i (j + 1) r c)))"
      proof (cases "cell_at obj g0 i j = MSW_MINE k \<and> adjacent i j r c")
        case False
        then have "cell_at obj ?g1 r c = cell_at obj g r c"
          using mine count_neighbors_adjacent[OF len rc, of k i j] by auto
        with False old show ?thesis
          by (auto simp: mines_before_step(1)[OF b])
      next
        case True
        then have "cell_at obj ?g1 r c =
            (if cell_at obj g r c \<noteq> MSW_MINE k then cell_at obj g r c + 1
             else cell_at obj g r c)"
          using mine count_neighbors_adjacent[OF len rc, of k i j] by auto
        moreover have "card (mines_before k obj g0 i (j + 1) r c)
            = Suc (card (mines_before k obj g0 i j r c))"
          using True mines_before_step[OF b, of k g0 r c] mines_before_bound(1)[of k obj g0 i j r c]
          by simp
        ultimately show ?thesis
          using old m by simp
      qed
    qed
    moreover have "0 \<le> j + 1" "j + 1 \<le> columns obj"
      using "1.prems" True by simp_all
    ultimately have "counted k obj g0 i (columns obj) (count_columns k obj i (j + 1) ?g1)"
      using "1.IH"[OF True] "1.prems"(2,3,4) by blast
    with True show ?thesis
      by (subst count_columns.simps) (simp only: if_True)
  qed
qed

lemma count_rows_counted:
  assumes "counted k obj g0 i 0 g" and "counts_fit k"
    and "0 \<le> i" and "i \<le> rows obj" and "0 \<le> columns obj"
  shows "counted k obj g0 (rows obj) 0 (count_rows k obj i g)"
  using assms
proof (induction k obj i g rule: count_rows.induct)
  case (1 k obj i g)
  show ?case
  proof (cases "i < rows obj")
    case False
    with "1.prems" show ?thesis
      by (subst count_rows.simps) simp
  next
    case True
    have "counted k obj g0 i (columns obj) (count_columns k obj i 0 g)"
      using "1.prems" True by (intro count_columns_counted) simp_all
    then have "counted k obj g0 (i + 1) 0 (count_columns k obj i 0 g)"
      unfolding counted_def mines_before_row .
    moreover have "0 \<le> i + 1" "i + 1 \<le> rows obj"
      using "1.prems" True by simp_all
    ultimately have "counted k obj g0 (rows obj) 0
        (count_rows k obj (i + 1) (count_columns k obj i 0 g))"
      using "1.IH"[OF True] "1.prems"(2,5) by blast
    with True show ?thesis
      by (subst count_rows.simps) (simp only: if_True)
  qed
qed

lemma div_less_rows:
  assumes "0 < (C::int)" and "x < R * C"
  shows "x div C < R"
proof (rule ccontr)
  assume "\<not> x div C < R"
  then have "R * C \<le> (x div C) * C"
    using assms(1) by (intro mult_right_mono) simp_all
  moreover have "x div C * C + x mod C = x" by simp
  moreover have "0 \<le> x mod C" using assms(1) by simp
  ultimately show False using assms(2) by linarith
qed

lemma count_list_update:
  "i < length xs \<Longrightarrow> xs ! i \<noteq> y \<Longrightarrow> count_list (xs[i := y]) y = Suc (count_list xs y)"
proof (induction xs arbitrary: i)
  case Nil
  then show ?case by simp
next
  case (Cons x xs)
  then show ?case by (cases i) auto
qed

lemma count_list_pointwise:
  "length xs = length ys \<Longrightarrow> \<forall>i<length xs. xs ! i = y \<longleftrightarrow> ys ! i = y \<Longrightarrow>
   count_list xs y = count_list ys y"
proof (induction xs ys rule: list_induct2)
  case Nil
  then show ?case by simp
next
  case (Cons x xs y' ys)
  from Cons.prems have "x = y \<longleftrightarrow> y' = y" by auto
  moreover from Cons.prems have "\<forall>i<length xs. xs ! i = y \<longleftrightarrow> ys ! i = y" by auto
  ultimately show ?case using Cons.IH by simp
qed

lemma place_mines_cells:
  assumes "place_mines k m n g rs = Inr (g', rs')"
    and "\<forall>x<length g. g ! x = MSW_CLEAR k \<or> g ! x = MSW_MINE k"
  shows "\<forall>x<length g'. g' ! x = MSW_CLEAR k \<or> g' ! x = MSW_MINE k"
  using assms
proof (induction k m n g rs rule: place_mines.induct)
  case (1 k m ncells g)
  then show ?case by (auto split: if_splits)
next
  case (2 k m ncells g x rs)
  let ?i = "nat (int x mod ncells)"
  have "\<forall>y<length (g[?i := MSW_MINE k]). g[?i := MSW_MINE k] ! y = MSW_CLEAR k \<or>
          g[?i := MSW_MINE k] ! y = MSW_MINE k"
  proof (intro allI impI)
    fix y assume "y < length (g[?i := MSW_MINE k])"
    then show "g[?i := MSW_MINE k] ! y = MSW_CLEAR k \<or> g[?i := MSW_MINE k] ! y = MSW_MINE k"
      using "2.prems"(2) by (cases "y = ?i") auto
  qed
  with 2 show ?case by (auto split: if_splits)
qed

lemma place_mines_count:
  assumes "place_mines k m n g rs = Inr (g', rs')" and "MSW_CLEAR k \<noteq> MSW_MINE k"
  shows "int (count_list g' (MSW_MINE k)) = int (count_list g (MSW_MINE k)) + max m 0"
  using assms
proof (induction k m n g rs rule: place_mines.induct)
  case (1 k m ncells g)
  then show ?case by (auto split: if_splits)
next
  case (2 k m ncells g x rs)
  let ?i = "nat (int x mod ncells)"
  show ?case
  proof (cases "0 < m")
    case False
    with "2.prems" show ?thesis by simp
  next
    case True
    with "2.prems" have arr: "0 < ncells" "in_array g (int x mod ncells)"
      by (auto split: if_splits)
    show ?thesis
    proof (cases "g ! ?i = MSW_CLEAR k")
      case c: True
      with True arr "2.prems" have
        "place_mines k (m - 1) ncells (g[?i := MSW_MINE k]) rs = Inr (g', rs')"
        by simp
      from "2.IH"(1)[OF True _ c this "2.prems"(2)] arr have
        "int (count_list g' (MSW_MINE k))
           = int (count_list (g[?i := MSW_MINE k]) (MSW_MINE k)) + max (m - 1) 0"
        by simp
      moreover have "count_list (g[?i := MSW_MINE k]) (MSW_MINE k)
           = Suc (count_list g (MSW_MINE k))"
        using c "2.prems"(2) arr by (intro count_list_update) (simp_all add: in_array_nat)
      ultimately show ?thesis using True by simp
    next
      case c: False
      with True arr "2.prems" have "place_mines k m ncells g rs = Inr (g', rs')"
        by simp
      from "2.IH"(2)[OF True _ c this "2.prems"(2)] arr show ?thesis by simp
    qed
  qed
qed

lemma index_surj:
  assumes "0 < columns obj" and "x < nat (rows obj * columns obj)"
  shows "msw_in_bounds obj (int x div columns obj) (int x mod columns obj)"
    and "nat (msw_index obj (int x div columns obj) (int x mod columns obj)) = x"
proof -
  let ?C = "columns obj"
  have "int x < rows obj * ?C" using assms(2) by linarith
  then have "int x div ?C < rows obj"
    using assms(1) by (intro div_less_rows)
  moreover have "0 \<le> int x div ?C"
    using assms(1) by (simp add: pos_imp_zdiv_nonneg_iff)
  ultimately show "msw_in_bounds obj (int x div ?C) (int x mod ?C)"
    using assms(1) by (simp add: msw_in_bounds_def)
  show "nat (msw_index obj (int x div ?C) (int x mod ?C)) = x"
    by (simp add: msw_index_def)
qed

text \<open>The direct recount: how many of the eight neighbours of \<open>(r, c)\<close> hold a mine.\<close>

definition mine_neighbors :: "codes \<Rightarrow> smb_mine \<Rightarrow> cell list \<Rightarrow> int \<Rightarrow> int \<Rightarrow> nat" where
  "mine_neighbors k obj g r c =
     length (filter (\<lambda>n. msw_in_bounds obj (r + rnbr ! n) (c + cnbr ! n) \<and>
                          g ! nat (msw_index obj (r + rnbr ! n) (c + cnbr ! n)) = MSW_MINE k)
               [0..<NUM_NEIGHBORS])"

lemma mine_neighbors_card:
  "card {(i, j). msw_in_bounds obj i j \<and> cell_at obj g i j = MSW_MINE k \<and> adjacent i j r c}
     = mine_neighbors k obj g r c"
proof -
  let ?P = "\<lambda>n. msw_in_bounds obj (r + rnbr ! n) (c + cnbr ! n) \<and>
                 g ! nat (msw_index obj (r + rnbr ! n) (c + cnbr ! n)) = MSW_MINE k"
  let ?f = "\<lambda>n. (r + rnbr ! n, c + cnbr ! n)"
  let ?N = "{n. n < NUM_NEIGHBORS \<and> ?P n}"
  have "{(i, j). msw_in_bounds obj i j \<and> cell_at obj g i j = MSW_MINE k \<and> adjacent i j r c}
          = ?f ` ?N"
    by (subst adjacent_sym) (auto simp: adjacent_def cell_at_def)
  moreover have "inj_on ?f ?N"
    using offsets_distinct by (auto simp: inj_on_def)
  ultimately have "card {(i, j). msw_in_bounds obj i j \<and> cell_at obj g i j = MSW_MINE k \<and>
                     adjacent i j r c} = card ?N"
    by (simp add: card_image)
  also have "\<dots> = mine_neighbors k obj g r c"
    unfolding mine_neighbors_def length_filter_conv_card
    by (rule arg_cong[where f = card]) auto
  finally show ?thesis .
qed


lemma counts_fit_clear:
  assumes "counts_fit k"
  shows "MSW_CLEAR k \<noteq> MSW_MINE k"
proof -
  have "MSW_CLEAR k + of_nat 0 \<in> (\<lambda>j. MSW_CLEAR k + of_nat j) ` {0..8::nat}"
    by (rule imageI) simp
  with assms show ?thesis by (auto simp: counts_fit_def)
qed

lemma counted_start:
  assumes "length g0 = nat (rows obj * columns obj)"
    and "\<forall>x<length g0. g0 ! x = MSW_CLEAR k \<or> g0 ! x = MSW_MINE k"
  shows "counted k obj g0 0 0 g0"
  unfolding counted_def
proof (intro conjI allI impI)
  fix r c assume rc: "msw_in_bounds obj r c"
  have "mines_before k obj g0 0 0 r c = {}"
    unfolding mines_before_def msw_in_bounds_def by auto
  moreover have "cell_at obj g0 r c = MSW_CLEAR k \<or> cell_at obj g0 r c = MSW_MINE k"
    using assms index_nat_less[OF rc assms(1)] by (simp add: cell_at_def)
  ultimately show "cell_at obj g0 r c =
          (if cell_at obj g0 r c = MSW_MINE k then MSW_MINE k
           else MSW_CLEAR k + of_nat (card (mines_before k obj g0 0 0 r c)))"
    by auto
qed (rule assms(1))

lemma counted_end:
  assumes "counted k obj g0 (rows obj) 0 g" and "counts_fit k" and "msw_in_bounds obj r c"
    and "cell_at obj g r c \<noteq> MSW_MINE k"
  shows "cell_at obj g r c = MSW_CLEAR k + of_nat (mine_neighbors k obj g r c)"
proof -
  have "mines_before k obj g0 (rows obj) 0 r c
      = {(i, j). msw_in_bounds obj i j \<and> cell_at obj g i j = MSW_MINE k \<and> adjacent i j r c}"
    unfolding mines_before_def using counted_mine_iff[OF assms(1,2)]
    by (auto simp: msw_in_bounds_def)
  then have "card (mines_before k obj g0 (rows obj) 0 r c) = mine_neighbors k obj g r c"
    by (simp add: mine_neighbors_card)
  moreover have "cell_at obj g0 r c \<noteq> MSW_MINE k"
    using counted_mine_iff[OF assms(1,2,3)] assms(4) by simp
  ultimately show ?thesis
    using assms(1,3) by (simp add: counted_def)
qed

lemma counted_mines:
  assumes "counted k obj g0 i j g" and "counts_fit k" and "0 < columns obj"
    and "length g0 = nat (rows obj * columns obj)"
  shows "count_list g (MSW_MINE k) = count_list g0 (MSW_MINE k)"
proof (rule count_list_pointwise)
  show len: "length g = length g0"
    using assms(1,4) by (simp add: counted_def)
  show "\<forall>x<length g. g ! x = MSW_MINE k \<longleftrightarrow> g0 ! x = MSW_MINE k"
  proof (intro allI impI)
    fix x assume "x < length g"
    then have x: "x < nat (rows obj * columns obj)"
      using len assms(4) by simp
    from counted_mine_iff[OF assms(1,2) index_surj(1)[OF assms(3) x]]
    show "g ! x = MSW_MINE k \<longleftrightarrow> g0 ! x = MSW_MINE k"
      by (simp add: cell_at_def index_surj(2)[OF assms(3) x])
  qed
qed

lemma generate_counted:
  assumes "msw_generate_grid k obj g rs = Inr (g', rs')" and "counts_fit k"
    and "0 \<le> rows obj" and "0 < columns obj"
  shows "\<exists>g0. counted k obj g0 (rows obj) 0 g' \<and> length g0 = nat (rows obj * columns obj) \<and>
          int (count_list g0 (MSW_MINE k)) = max (mines obj) 0"
proof -
  let ?n = "rows obj * columns obj"
  let ?c = "replicate (nat ?n) (MSW_CLEAR k)"
  from assms(1) have len: "length g = nat ?n"
    by (auto simp: msw_generate_grid_def split: if_splits)
  then have c: "clear_cells k 0 ?n g = ?c"
    by (rule clear_cells_all)
  with assms(1) len obtain g0 where
    p: "place_mines k (mines obj) ?n ?c rs = Inr (g0, rs')" and g': "g' = count_rows k obj 0 g0"
    by (auto simp: msw_generate_grid_def split: sum.splits)
  have ne: "MSW_CLEAR k \<noteq> MSW_MINE k"
    using counts_fit_clear[OF assms(2)] .
  have l0: "length g0 = nat ?n"
    using place_mines_length[OF p] by simp
  have "\<forall>x<length g0. g0 ! x = MSW_CLEAR k \<or> g0 ! x = MSW_MINE k"
    using place_mines_cells[OF p] by simp
  with l0 have "counted k obj g0 0 0 g0" by (rule counted_start)
  then have "counted k obj g0 (rows obj) 0 g'"
    unfolding g' using assms(2,3,4) by (intro count_rows_counted) simp_all
  moreover have "int (count_list g0 (MSW_MINE k)) = max (mines obj) 0"
    using place_mines_count[OF p ne] ne by (simp add: count_list_0_iff)
  ultimately show ?thesis using l0 by blast
qed

lemma initial_loop_result:
  assumes "initial_grid_loop k obj r c g rs = Inr (g', rs')"
  shows "(\<exists>g1 rs1. msw_generate_grid k obj g1 rs1 = Inr (g', rs')) \<and>
         in_array g' (msw_index obj r c) \<and> g' ! nat (msw_index obj r c) = MSW_CLEAR k"
  using assms
proof (induction k obj r c g rs rule: initial_grid_loop.induct)
  case (1 k obj r c g rs)
  from "1.prems" obtain g1 rs1 where
    gen: "msw_generate_grid k obj g rs = Inr (g1, rs1)"
    and arr: "in_array g1 (msw_index obj r c)"
    by (subst (asm) initial_grid_loop.simps) (auto split: sum.splits if_splits)
  show ?case
  proof (cases "g1 ! nat (msw_index obj r c) \<noteq> MSW_CLEAR k")
    case True
    with "1.prems" gen arr have "initial_grid_loop k obj r c g1 rs1 = Inr (g', rs')"
      by (subst (asm) initial_grid_loop.simps) simp
    from "1.IH"[OF gen refl _ True this] arr show ?thesis by simp
  next
    case False
    with "1.prems" gen arr have "g' = g1" "rs' = rs1"
      by (subst (asm) initial_grid_loop.simps, simp)+
    with gen arr False show ?thesis by blast
  qed
qed

lemma initial_grid_generated:
  assumes "msw_initial_grid k obj r c rs = Inr (obj', rs')"
  obtains g g1 rs1 where "obj' = obj\<lparr>grid := Some g\<rparr>"
    and "msw_generate_grid k obj g1 rs1 = Inr (g, rs')"
    and "g ! nat (msw_index obj r c) = MSW_CLEAR k"
proof -
  from assms obtain g where
    l: "initial_grid_loop k obj r c (smb_new (rows obj * columns obj)) rs = Inr (g, rs')"
    and o: "obj' = obj\<lparr>grid := Some g\<rparr>"
    by (auto simp: msw_initial_grid_def split: sum.splits)
  from initial_loop_result[OF l] o that show thesis by blast
qed

lemma generated_mines:
  assumes "msw_generate_grid k obj g0 rs = Inr (g, rs')" and "counts_fit k"
    and "0 \<le> mines obj" and "0 < rows obj" and "0 < columns obj"
  shows "length g = nat (rows obj * columns obj)"
    and "int (count_list g (MSW_MINE k)) = mines obj"
proof -
  from generate_counted[OF assms(1,2)] assms(4,5) obtain g1 where
    c: "counted k obj g1 (rows obj) 0 g" and l: "length g1 = nat (rows obj * columns obj)"
    and m: "int (count_list g1 (MSW_MINE k)) = max (mines obj) 0"
    by auto
  from c show "length g = nat (rows obj * columns obj)"
    by (simp add: counted_def)
  from counted_mines[OF c assms(2,5) l] m assms(3)
  show "int (count_list g (MSW_MINE k)) = mines obj" by simp
qed

lemma generated_cell:
  assumes "msw_generate_grid k obj g0 rs = Inr (g, rs')" and "counts_fit k"
    and "msw_in_bounds obj r c" and "g ! nat (msw_index obj r c) \<noteq> MSW_MINE k"
  shows "g ! nat (msw_index obj r c) = MSW_CLEAR k + of_nat (mine_neighbors k obj g r c)"
proof -
  from assms(3) have "0 \<le> rows obj" "0 < columns obj"
    by (auto simp: msw_in_bounds_def)
  from generate_counted[OF assms(1,2) this] obtain g1 where
    "counted k obj g1 (rows obj) 0 g" by blast
  from counted_end[OF this assms(2,3)] assms(4) show ?thesis
    by (simp add: cell_at_def)
qed

text \<open>
  C6. In a grid that \<^verbatim>\<open>msw_generate_grid\<close> returns, every in-bounds cell that is no mine
  holds the code of a clear cell plus the number of its in-bounds neighbours that are
  mines, as a direct recount finds it (none: the clear code itself). The cell codes are
  those of the missing header, taken to keep the counts \<open>0\<close> to \<open>8\<close> apart from the mine.
\<close>

theorem generated_counts:
  assumes "msw_generate_grid k obj g0 rs = Inr (g, rs')" and "counts_fit k"
    and "msw_in_bounds obj r c" and "g ! nat (msw_index obj r c) \<noteq> MSW_MINE k"
  shows "g ! nat (msw_index obj r c) = MSW_CLEAR k + of_nat (mine_neighbors k obj g r c)"
  using assms by (rule generated_cell)

theorem generated_counts_witness:
  "msw_generate_grid ascii_codes (smb_mine_create ascii_codes 3 3 2) (smb_new 9) [0, 9, 8, 5]
     = Inr ([0x2A, 0x31, 0x30, 0x31, 0x32, 0x31, 0x30, 0x31, 0x2A], [5]) \<and>
   counts_fit ascii_codes \<and>
   msw_in_bounds (smb_mine_create ascii_codes 3 3 2) 1 1 \<and>
   mine_neighbors ascii_codes (smb_mine_create ascii_codes 3 3 2)
     [0x2A, 0x31, 0x30, 0x31, 0x32, 0x31, 0x30, 0x31, 0x2A] 1 1 = 2 \<and>
   [0x2A, 0x31, 0x30, 0x31, 0x32, 0x31, 0x30, 0x31, 0x2A :: cell]
       ! nat (msw_index (smb_mine_create ascii_codes 3 3 2) 1 1)
     = MSW_CLEAR ascii_codes
       + of_nat (mine_neighbors ascii_codes (smb_mine_create ascii_codes 3 3 2)
                   [0x2A, 0x31, 0x30, 0x31, 0x32, 0x31, 0x30, 0x31, 0x2A] 1 1)"
proof -
  let ?obj = "smb_mine_create ascii_codes 3 3 2"
  let ?g = "[0x2A, 0x31, 0x30, 0x31, 0x32, 0x31, 0x30, 0x31, 0x2A :: cell]"
  have 1: "msw_generate_grid ascii_codes ?obj (smb_new 9) [0, 9, 8, 5] = Inr (?g, [5])"
    by code_simp
  have 2: "counts_fit ascii_codes" by code_simp
  have 3: "msw_in_bounds ?obj 1 1" by code_simp
  have 4: "?g ! nat (msw_index ?obj 1 1) \<noteq> MSW_MINE ascii_codes" by code_simp
  have 5: "mine_neighbors ascii_codes ?obj ?g 1 1 = 2" by code_simp
  from generated_counts[OF 1 2 3 4] 1 2 3 5 show ?thesis by simp
qed

text \<open>
  C5, as the claim states it: on a board of 1 by 2 cells with one mine, a valid
  configuration, no sequence of random numbers makes the generation for the cell
  \<open>(0, 0)\<close> return a grid: the mine lies on that cell or next to it.
\<close>

theorem initial_grid_never_returns:
  "\<not> (\<exists>rs obj' rs'.
        msw_initial_grid ascii_codes (smb_mine_create ascii_codes 1 2 1) 0 0 rs = Inr (obj', rs'))"
proof
  let ?k = ascii_codes
  let ?obj = "smb_mine_create ascii_codes 1 2 1"
  assume "\<exists>rs obj' rs'. msw_initial_grid ?k ?obj 0 0 rs = Inr (obj', rs')"
  then obtain rs obj' rs' where "msw_initial_grid ?k ?obj 0 0 rs = Inr (obj', rs')"
    by blast
  then obtain g g1 rs1 where
    gen: "msw_generate_grid ?k ?obj g1 rs1 = Inr (g, rs')"
    and cl: "g ! nat (msw_index ?obj 0 0) = MSW_CLEAR ?k"
    by (rule initial_grid_generated)
  have fit: "counts_fit ?k" by code_simp
  have obj: "rows ?obj = 1" "columns ?obj = 2" "mines ?obj = 1"
    by (simp_all add: smb_mine_create_def smb_mine_init_def)
  from generated_mines[OF gen fit] obj have
    len: "length g = 2" and cnt: "count_list g (MSW_MINE ?k) = 1"
    by simp_all
  from len obtain a b where g: "g = [a, b]"
    by (metis (no_types, opaque_lifting) One_nat_def Suc_1 length_0_conv length_Suc_conv)
  from cl g have a: "a = MSW_CLEAR ?k"
    by (simp add: msw_index_def)
  with cnt g have b: "b = MSW_MINE ?k"
    by (auto simp: ascii_codes_def split: if_splits)
  have b00: "msw_in_bounds ?obj 0 0"
    by (simp add: msw_in_bounds_def obj)
  have "g ! nat (msw_index ?obj 0 0) \<noteq> MSW_MINE ?k"
    using cl by (simp add: ascii_codes_def)
  from generated_cell[OF gen fit b00 this] cl
  have "MSW_CLEAR ?k = MSW_CLEAR ?k + of_nat (mine_neighbors ?k ?obj g 0 0)"
    by simp
  moreover have "mine_neighbors ?k ?obj g 0 0 = 1"
    unfolding g a b by code_simp
  ultimately show False by simp
qed

text \<open>
  C5, amended: whenever the generation for the first dig at an in-bounds cell \<open>(r, c)\<close>
  returns, the grid it installs has \<open>rows * columns\<close> cells, exactly \<open>mines\<close> of them
  mines, and the cell \<open>(r, c)\<close> is clear. (It need not return.) The cell codes are taken
  to keep the counts apart from the mine.
\<close>

theorem initial_grid_mines_and_clear:
  assumes "msw_initial_grid k obj r c rs = Inr (obj', rs')" and "counts_fit k"
    and "0 \<le> mines obj" and "msw_in_bounds obj r c"
  shows "\<exists>g. obj' = obj\<lparr>grid := Some g\<rparr> \<and> length g = nat (rows obj * columns obj) \<and>
             int (count_list g (MSW_MINE k)) = mines obj \<and>
             g ! nat (msw_index obj r c) = MSW_CLEAR k"
proof -
  from assms(1) obtain g g1 rs1 where
    o: "obj' = obj\<lparr>grid := Some g\<rparr>"
    and gen: "msw_generate_grid k obj g1 rs1 = Inr (g, rs')"
    and cl: "g ! nat (msw_index obj r c) = MSW_CLEAR k"
    by (rule initial_grid_generated)
  from assms(4) have "0 < rows obj" "0 < columns obj"
    by (auto simp: msw_in_bounds_def)
  from generated_mines[OF gen assms(2,3) this] o cl show ?thesis by blast
qed

theorem initial_grid_mines_and_clear_witness:
  "msw_initial_grid ascii_codes (smb_mine_create ascii_codes 3 3 2) 0 2 [0, 2, 8, 6, 0]
     = Inr ((smb_mine_create ascii_codes 3 3 2)
              \<lparr>grid := Some [0x30, 0x30, 0x30, 0x31, 0x32, 0x31, 0x2A, 0x32, 0x2A]\<rparr>, [0]) \<and>
   counts_fit ascii_codes \<and> 0 \<le> mines (smb_mine_create ascii_codes 3 3 2) \<and>
   msw_in_bounds (smb_mine_create ascii_codes 3 3 2) 0 2 \<and>
   (\<exists>g. (smb_mine_create ascii_codes 3 3 2)
              \<lparr>grid := Some [0x30, 0x30, 0x30, 0x31, 0x32, 0x31, 0x2A, 0x32, 0x2A]\<rparr>
          = (smb_mine_create ascii_codes 3 3 2)\<lparr>grid := Some g\<rparr> \<and>
        length g = nat (rows (smb_mine_create ascii_codes 3 3 2)
                          * columns (smb_mine_create ascii_codes 3 3 2)) \<and>
        int (count_list g (MSW_MINE ascii_codes)) = mines (smb_mine_create ascii_codes 3 3 2) \<and>
        g ! nat (msw_index (smb_mine_create ascii_codes 3 3 2) 0 2) = MSW_CLEAR ascii_codes)"
proof -
  let ?obj = "smb_mine_create ascii_codes 3 3 2"
  have 1: "msw_initial_grid ascii_codes ?obj 0 2 [0, 2, 8, 6, 0]
     = Inr (?obj\<lparr>grid := Some [0x30, 0x30, 0x30, 0x31, 0x32, 0x31, 0x2A, 0x32, 0x2A]\<rparr>, [0])"
    by code_simp
  have 2: "counts_fit ascii_codes" by code_simp
  have 3: "0 \<le> mines ?obj" by code_simp
  have 4: "msw_in_bounds ?obj 0 2" by code_simp
  note 5 = initial_grid_mines_and_clear[OF 1 2 3 4]
  show ?thesis
    by (intro conjI) (rule 1 2 3 4 5)+
qed

lemma in_bounds_visible [simp]:
  "msw_in_bounds (obj\<lparr>visible := v\<rparr>) r c = msw_in_bounds obj r c"
  by (simp add: msw_in_bounds_def)

lemma index_visible [simp]:
  "msw_index (obj\<lparr>visible := v\<rparr>) r c = msw_index obj r c"
  by (simp add: msw_index_def)

lemma in_array_index:
  "msw_in_bounds obj r c \<Longrightarrow> length xs = nat (rows obj * columns obj) \<Longrightarrow>
   in_array xs (msw_index obj r c)"
  using index_in_range[of obj r c] by (simp add: in_array_def)

lemma dig_total:
  assumes g: "grid obj = Some g" and lg: "length g = nat (rows obj * columns obj)"
  shows "length v = length g \<Longrightarrow>
         \<exists>v' st. msw_dig k (obj\<lparr>visible := v\<rparr>) row column rs = Inr (obj\<lparr>visible := v'\<rparr>, st, rs)"
    and "length v = length g \<Longrightarrow>
         \<exists>v'. dig_neighbors k (obj\<lparr>visible := v\<rparr>) row column n rs = Inr (obj\<lparr>visible := v'\<rparr>, rs)"
proof -
  define P where "P = (\<lambda>game row column. \<forall>v. game = obj\<lparr>visible := v\<rparr> \<and> length v = length g \<longrightarrow>
      (\<exists>v' st. msw_dig k game row column rs = Inr (obj\<lparr>visible := v'\<rparr>, st, rs)))"
  define Q where "Q = (\<lambda>game row column n. \<forall>v. game = obj\<lparr>visible := v\<rparr> \<and> length v = length g \<longrightarrow>
      (\<exists>v'. dig_neighbors k game row column n rs = Inr (obj\<lparr>visible := v'\<rparr>, rs)))"
  have dig_case: "P game row column"
    if gg: "grid game = Some g"
      and IH: "\<lbrakk>msw_in_bounds game row column; in_array g (msw_index game row column);
        in_array (visible game) (msw_index game row column);
        g ! nat (msw_index game row column) = MSW_CLEAR k;
        visible game ! nat (msw_index game row column) \<noteq> MSW_CLEAR k\<rbrakk>
       \<Longrightarrow> Q (game\<lparr>visible := (visible game)
                    [nat (msw_index game row column) := MSW_CLEAR k]\<rparr>) row column 0"
    for game row column
    unfolding P_def
  proof (intro allI impI, elim conjE)
    fix v assume game: "game = obj\<lparr>visible := v\<rparr>" and lv: "length v = length g"
    let ?i = "nat (msw_index obj row column)"
    show "\<exists>v' st. msw_dig k game row column rs = Inr (obj\<lparr>visible := v'\<rparr>, st, rs)"
    proof (cases "msw_in_bounds obj row column")
      case False
      then show ?thesis
        using gg game by (auto simp: dig_started)
    next
      case True
      then have arr: "in_array g (msw_index obj row column)" "in_array v (msw_index obj row column)"
        using lg lv by (simp_all add: in_array_index)
      show ?thesis
      proof (cases "g ! ?i = MSW_CLEAR k \<and> v ! ?i \<noteq> MSW_CLEAR k")
        case A: True
        have "Q (game\<lparr>visible := (visible game)
                    [nat (msw_index game row column) := MSW_CLEAR k]\<rparr>) row column 0"
          using True arr A game by (intro IH) simp_all
        then obtain v' where
          "dig_neighbors k (obj\<lparr>visible := v[?i := MSW_CLEAR k]\<rparr>) row column 0 rs
             = Inr (obj\<lparr>visible := v'\<rparr>, rs)"
          unfolding Q_def using game lv by auto
        then show ?thesis
          using gg game True arr A by (auto simp: dig_started)
      next
        case False
        then show ?thesis
          using gg game True arr by (auto simp: dig_started)
      qed
    qed
  qed
  have nbr_case: "Q game row column n"
    if gg: "grid game = Some g"
      and IH1: "n < NUM_NEIGHBORS \<Longrightarrow> P game (row + rnbr ! n) (column + cnbr ! n)"
      and IH2: "\<And>game' st. \<lbrakk>n < NUM_NEIGHBORS;
          msw_dig k game (row + rnbr ! n) (column + cnbr ! n) rs = Inr (game', st, rs);
          grid game' = Some g\<rbrakk> \<Longrightarrow> Q game' row column (n + 1)"
    for game row column n
    unfolding Q_def
  proof (intro allI impI, elim conjE)
    fix v assume game: "game = obj\<lparr>visible := v\<rparr>" and lv: "length v = length g"
    show "\<exists>v'. dig_neighbors k game row column n rs = Inr (obj\<lparr>visible := v'\<rparr>, rs)"
    proof (cases "n < NUM_NEIGHBORS")
      case False
      then show ?thesis
        using game by (subst dig_neighbors.simps) auto
    next
      case True
      from IH1[OF True] game lv obtain v1 st where
        d: "msw_dig k game (row + rnbr ! n) (column + cnbr ! n) rs = Inr (obj\<lparr>visible := v1\<rparr>, st, rs)"
        unfolding P_def by blast
      from dig_frame(1)[OF d gg] game have l1: "length v1 = length g"
        using lv by (simp add: reveals_def)
      have "Q (obj\<lparr>visible := v1\<rparr>) row column (n + 1)"
        using True d g by (intro IH2) simp_all
      then obtain v' where
        "dig_neighbors k (obj\<lparr>visible := v1\<rparr>) row column (n + 1) rs = Inr (obj\<lparr>visible := v'\<rparr>, rs)"
        unfolding Q_def using l1 by blast
      with True d show ?thesis
        by (subst dig_neighbors.simps) auto
    qed
  qed
  note ind = dig_induct[of g k Q P rs, OF dig_case nbr_case]
  show "length v = length g \<Longrightarrow>
         \<exists>v' st. msw_dig k (obj\<lparr>visible := v\<rparr>) row column rs = Inr (obj\<lparr>visible := v'\<rparr>, st, rs)"
  proof -
    assume a: "length v = length g"
    have "P (obj\<lparr>visible := v\<rparr>) row column"
      using ind(1) g by simp
    then show ?thesis unfolding P_def using a by blast
  qed
  show "length v = length g \<Longrightarrow>
         \<exists>v'. dig_neighbors k (obj\<lparr>visible := v\<rparr>) row column n rs = Inr (obj\<lparr>visible := v'\<rparr>, rs)"
  proof -
    assume a: "length v = length g"
    have "Q (obj\<lparr>visible := v\<rparr>) row column n"
      using ind(2) g by simp
    then show ?thesis unfolding Q_def using a by blast
  qed
qed

lemma dig_open:
  assumes "grid game = Some g" and "msw_in_bounds game row column"
    and "in_array g (msw_index game row column)"
    and "in_array (visible game) (msw_index game row column)"
    and "g ! nat (msw_index game row column) = MSW_CLEAR k"
    and "visible game ! nat (msw_index game row column) \<noteq> MSW_CLEAR k"
  shows "msw_dig k game row column rs =
     (case dig_neighbors k
             (game\<lparr>visible := (visible game)[nat (msw_index game row column) := MSW_CLEAR k]\<rparr>)
             row column 0 rs of
        Inl e \<Rightarrow> Inl e
      | Inr (game2, rs2) \<Rightarrow> Inr (game2, 1, rs2))"
  using assms by (simp add: dig_started)

lemma dig_shut:
  assumes "grid game = Some g" and "msw_in_bounds game row column"
    and "in_array g (msw_index game row column)"
    and "in_array (visible game) (msw_index game row column)"
    and "\<not> (g ! nat (msw_index game row column) = MSW_CLEAR k \<and>
            visible game ! nat (msw_index game row column) \<noteq> MSW_CLEAR k)"
  shows "msw_dig k game row column rs =
     Inr (game\<lparr>visible :=
            (if g ! nat (msw_index game row column) \<noteq> MSW_MINE k \<and>
                visible game ! nat (msw_index game row column) = MSW_FLAG k
             then visible game
             else (visible game)[nat (msw_index game row column) :=
                                   g ! nat (msw_index game row column)])\<rparr>,
          if g ! nat (msw_index game row column) = MSW_MINE k then - 1 else 1, rs)"
proof -
  let ?i = "nat (msw_index game row column)"
  have unf: "msw_dig k game row column rs =
      (if g ! ?i = MSW_MINE k
       then Inr (game\<lparr>visible := (visible game)[?i := MSW_MINE k]\<rparr>, - 1, rs)
       else if visible game ! ?i = MSW_FLAG k then Inr (game, 1, rs)
       else Inr (game\<lparr>visible := (visible game)[?i := g ! ?i]\<rparr>, 1, rs))"
    unfolding dig_started[OF assms(1)] using assms(2-5) by (simp only: if_False if_True not_not simp_thms)
  show ?thesis
  proof (cases "g ! ?i = MSW_MINE k")
    case True
    then show ?thesis unfolding unf by simp
  next
    case False
    then show ?thesis unfolding unf by simp
  qed
qed

text \<open>
  The region of \<open>(r, c)\<close>: the clear cells of the true grid that a path of clear cells,
  each next to the one before, joins to the clear cell \<open>(r, c)\<close>.
\<close>

inductive_set region :: "codes \<Rightarrow> smb_mine \<Rightarrow> cell list \<Rightarrow> int \<Rightarrow> int \<Rightarrow> (int \<times> int) set"
  for k :: codes and obj :: smb_mine and g :: "cell list" and r :: int and c :: int where
  start: "msw_in_bounds obj r c \<Longrightarrow> cell_at obj g r c = MSW_CLEAR k \<Longrightarrow> (r, c) \<in> region k obj g r c"
| step: "(i, j) \<in> region k obj g r c \<Longrightarrow> adjacent i j i' j' \<Longrightarrow> msw_in_bounds obj i' j' \<Longrightarrow>
         cell_at obj g i' j' = MSW_CLEAR k \<Longrightarrow> (i', j') \<in> region k obj g r c"

text \<open>The region together with the in-bounds cells next to one of its cells.\<close>

definition closure :: "codes \<Rightarrow> smb_mine \<Rightarrow> cell list \<Rightarrow> int \<Rightarrow> int \<Rightarrow> (int \<times> int) set" where
  "closure k obj g r c =
     region k obj g r c \<union>
     {(i', j'). msw_in_bounds obj i' j' \<and> (\<exists>(i, j) \<in> region k obj g r c. adjacent i j i' j')}"

lemma region_clear:
  "(i, j) \<in> region k obj g r c \<Longrightarrow> msw_in_bounds obj i j \<and> cell_at obj g i j = MSW_CLEAR k"
  by (induction rule: region.induct) simp_all

lemma region_origin:
  "(i, j) \<in> region k obj g r c \<Longrightarrow> msw_in_bounds obj r c \<and> cell_at obj g r c = MSW_CLEAR k"
  by (induction rule: region.induct) simp_all

lemma region_trans:
  assumes "(i, j) \<in> region k obj g r c" and "(i', j') \<in> region k obj g i j"
  shows "(i', j') \<in> region k obj g r c"
  using assms(2,1)
proof (induction rule: region.induct)
  case start
  then show ?case by simp
next
  case (step a b a' b')
  from step.IH[OF step.prems] step.hyps(2,3,4) show ?case
    by (rule region.step)
qed

lemma region_sym:
  assumes "(i, j) \<in> region k obj g r c"
  shows "(r, c) \<in> region k obj g i j"
  using assms
proof (induction rule: region.induct)
  case start
  then show ?case by (rule region.start)
next
  case (step i j i' j')
  have "(i', j') \<in> region k obj g i' j'"
    using step.hyps by (intro region.start)
  moreover have "adjacent i' j' i j"
    using step.hyps(2) adjacent_sym by blast
  ultimately have "(i, j) \<in> region k obj g i' j'"
    using region_clear[OF step.hyps(1)] by (auto elim: region.step)
  with step.IH show ?case by (rule region_trans[rotated])
qed

lemma closure_neighbor:
  assumes "(i, j) \<in> region k obj g r c" and "(i', j') \<in> closure k obj g i j"
  shows "(i', j') \<in> closure k obj g r c"
proof (cases "(i', j') \<in> region k obj g i j")
  case True
  with assms(1) show ?thesis
    unfolding closure_def using region_trans by blast
next
  case False
  with assms(2) obtain a b where ab: "(a, b) \<in> region k obj g i j" "adjacent a b i' j'"
    and b: "msw_in_bounds obj i' j'"
    unfolding closure_def by blast
  from region_trans[OF assms(1) ab(1)] ab(2) b show ?thesis
    unfolding closure_def by blast
qed

text \<open>
  Every in-bounds neighbour of \<open>(r, c)\<close> that is no mine is settled on the visible
  board \<open>v\<close>.
\<close>

definition nbrs_settled :: "codes \<Rightarrow> smb_mine \<Rightarrow> cell list \<Rightarrow> cell list \<Rightarrow> int \<Rightarrow> int \<Rightarrow> bool" where
  "nbrs_settled k obj g v r c \<longleftrightarrow>
     (\<forall>i j. adjacent r c i j \<longrightarrow> msw_in_bounds obj i j \<longrightarrow>
        cell_at obj g i j = MSW_MINE k \<or> settled k g v (nat (msw_index obj i j)))"

text \<open>
  Every clear cell that \<open>v'\<close> shows clear and \<open>v\<close> did not has its neighbours settled
  on \<open>v'\<close>.
\<close>

definition fresh_closed :: "codes \<Rightarrow> smb_mine \<Rightarrow> cell list \<Rightarrow> cell list \<Rightarrow> cell list \<Rightarrow> bool" where
  "fresh_closed k obj g v v' \<longleftrightarrow>
     (\<forall>r c. msw_in_bounds obj r c \<longrightarrow> cell_at obj g r c = MSW_CLEAR k \<longrightarrow>
        cell_at obj v' r c = MSW_CLEAR k \<longrightarrow> cell_at obj v r c \<noteq> MSW_CLEAR k \<longrightarrow>
        nbrs_settled k obj g v' r c)"

lemma nbrs_settled_stable:
  assumes "nbrs_settled k obj g v r c" and "reveals k g v v'"
    and "length v = nat (rows obj * columns obj)"
  shows "nbrs_settled k obj g v' r c"
  unfolding nbrs_settled_def
proof (intro allI impI)
  fix i j assume a: "adjacent r c i j" and b: "msw_in_bounds obj i j"
  show "cell_at obj g i j = MSW_MINE k \<or> settled k g v' (nat (msw_index obj i j))"
  proof (cases "cell_at obj g i j = MSW_MINE k")
    case False
    with assms(1) a b have "settled k g v (nat (msw_index obj i j))"
      by (auto simp: nbrs_settled_def)
    from reveals_settled[OF assms(2) this index_nat_less[OF b assms(3)]] False
    show ?thesis by (simp add: cell_at_def)
  qed simp
qed

lemma started_frame:
  assumes "grid obj = Some g"
  shows "msw_dig k (obj\<lparr>visible := v\<rparr>) row column rs = Inr (game', st, rs') \<Longrightarrow>
         game' = obj\<lparr>visible := visible game'\<rparr> \<and> rs' = rs \<and> reveals k g v (visible game')"
    and "dig_neighbors k (obj\<lparr>visible := v\<rparr>) row column n rs = Inr (game'', rs'') \<Longrightarrow>
         game'' = obj\<lparr>visible := visible game''\<rparr> \<and> rs'' = rs \<and> reveals k g v (visible game'')"
proof -
  have g: "grid (obj\<lparr>visible := v\<rparr>) = Some g" using assms by simp
  show "msw_dig k (obj\<lparr>visible := v\<rparr>) row column rs = Inr (game', st, rs') \<Longrightarrow>
         game' = obj\<lparr>visible := visible game'\<rparr> \<and> rs' = rs \<and> reveals k g v (visible game')"
    using dig_frame(1)[OF _ g, of k row column rs game' st rs'] by simp
  show "dig_neighbors k (obj\<lparr>visible := v\<rparr>) row column n rs = Inr (game'', rs'') \<Longrightarrow>
         game'' = obj\<lparr>visible := visible game''\<rparr> \<and> rs'' = rs \<and> reveals k g v (visible game'')"
    using dig_frame(2)[OF _ g, of k row column n rs game'' rs''] by simp
qed

lemma neighbors_settle:
  assumes g: "grid obj = Some g" and lg: "length g = nat (rows obj * columns obj)"
  shows "length v = length g \<Longrightarrow>
     dig_neighbors k (obj\<lparr>visible := v\<rparr>) row column n rs = Inr (game', rs') \<Longrightarrow>
     n \<le> n' \<Longrightarrow> n' < NUM_NEIGHBORS \<Longrightarrow>
     msw_in_bounds obj (row + rnbr ! n') (column + cnbr ! n') \<Longrightarrow>
     cell_at obj g (row + rnbr ! n') (column + cnbr ! n') \<noteq> MSW_MINE k \<Longrightarrow>
     settled k g (visible game') (nat (msw_index obj (row + rnbr ! n') (column + cnbr ! n')))"
proof (induction "NUM_NEIGHBORS - n" arbitrary: n v)
  case 0
  then show ?case by simp
next
  case (Suc m)
  let ?game = "obj\<lparr>visible := v\<rparr>"
  have gg: "grid ?game = Some g" using g by simp
  from Suc.hyps(2) have n: "n < NUM_NEIGHBORS" by simp
  from neighbors_step[OF gg n Suc.prems(2)] obtain game1 st where
    d: "msw_dig k ?game (row + rnbr ! n) (column + cnbr ! n) rs = Inr (game1, st, rs)"
    and r: "dig_neighbors k game1 row column (n + 1) rs = Inr (game', rs')"
    by blast
  from started_frame(1)[OF g d] have
    g1: "game1 = obj\<lparr>visible := visible game1\<rparr>" and rv1: "reveals k g v (visible game1)"
    by simp_all
  from rv1 Suc.prems(1) have l1: "length (visible game1) = length g"
    by (simp add: reveals_def)
  from r g1 have r': "dig_neighbors k (obj\<lparr>visible := visible game1\<rparr>) row column (n + 1) rs
      = Inr (game', rs')" by simp
  show ?case
  proof (cases "n' = n")
    case True
    have "settled k g (visible game1) (nat (msw_index ?game (row + rnbr ! n) (column + cnbr ! n)))"
      using dig_settles_started(4)[OF gg _ d] Suc.prems(5,6) True
      by (simp add: cell_at_def)
    moreover have "reveals k g (visible game1) (visible game')"
      using started_frame(2)[OF g r'] by simp
    ultimately show ?thesis
      using reveals_settled[of k g "visible game1" "visible game'"
              "nat (msw_index obj (row + rnbr ! n) (column + cnbr ! n))"]
        Suc.prems(5,6) True l1 lg index_nat_less[OF Suc.prems(5) lg]
      by (simp add: cell_at_def)
  next
    case False
    with Suc.prems(3) have "n + 1 \<le> n'" by simp
    moreover from Suc.hyps(2) have "m = NUM_NEIGHBORS - (n + 1)" by simp
    ultimately show ?thesis
      using Suc.hyps(1)[OF _ l1 r'] Suc.prems(4,5,6) by simp
  qed
qed

lemma neighbors_settle_all:
  assumes "grid obj = Some g" and "length g = nat (rows obj * columns obj)"
    and "length v = length g"
    and "dig_neighbors k (obj\<lparr>visible := v\<rparr>) row column 0 rs = Inr (game', rs')"
  shows "nbrs_settled k obj g (visible game') row column"
  unfolding nbrs_settled_def adjacent_def
  using neighbors_settle[OF assms(1,2,3,4)] by auto

lemma cell_at_update_other:
  assumes "msw_in_bounds obj r c" and "msw_in_bounds obj i j" and "(r, c) \<noteq> (i, j)"
  shows "cell_at obj (v[nat (msw_index obj i j) := x]) r c = cell_at obj v r c"
proof -
  have "nat (msw_index obj i j) \<noteq> nat (msw_index obj r c)"
  proof
    assume "nat (msw_index obj i j) = nat (msw_index obj r c)"
    then have "i = r \<and> j = c" by (rule index_nat_inject[OF assms(2,1)])
    with assms(3) show False by simp
  qed
  then show ?thesis by (simp add: cell_at_def)
qed

lemma dig_closes:
  assumes g: "grid obj = Some g" and lg: "length g = nat (rows obj * columns obj)"
  shows "length v = length g \<Longrightarrow>
         msw_dig k (obj\<lparr>visible := v\<rparr>) row column rs = Inr (game', st, rs') \<Longrightarrow>
         fresh_closed k obj g v (visible game')"
    and "length v = length g \<Longrightarrow>
         dig_neighbors k (obj\<lparr>visible := v\<rparr>) row column n rs = Inr (game'', rs'') \<Longrightarrow>
         fresh_closed k obj g v (visible game'')"
proof -
  define P where "P = (\<lambda>game row column. \<forall>v game' st rs'.
      game = obj\<lparr>visible := v\<rparr> \<and> length v = length g \<and>
      msw_dig k game row column rs = Inr (game', st, rs') \<longrightarrow>
      fresh_closed k obj g v (visible game'))"
  define Q where "Q = (\<lambda>game row column n. \<forall>v game'' rs''.
      game = obj\<lparr>visible := v\<rparr> \<and> length v = length g \<and>
      dig_neighbors k game row column n rs = Inr (game'', rs'') \<longrightarrow>
      fresh_closed k obj g v (visible game''))"
  have dig_case: "P game row column"
    if gg: "grid game = Some g"
      and IH: "\<lbrakk>msw_in_bounds game row column; in_array g (msw_index game row column);
        in_array (visible game) (msw_index game row column);
        g ! nat (msw_index game row column) = MSW_CLEAR k;
        visible game ! nat (msw_index game row column) \<noteq> MSW_CLEAR k\<rbrakk>
       \<Longrightarrow> Q (game\<lparr>visible := (visible game)
                    [nat (msw_index game row column) := MSW_CLEAR k]\<rparr>) row column 0"
    for game row column
    unfolding P_def
  proof (intro allI impI, elim conjE)
    fix v game' st rs'
    assume game: "game = obj\<lparr>visible := v\<rparr>" and lv: "length v = length g"
      and d: "msw_dig k game row column rs = Inr (game', st, rs')"
    let ?i = "nat (msw_index obj row column)"
    show "fresh_closed k obj g v (visible game')"
    proof (cases "msw_in_bounds obj row column")
      case False
      with d gg game have "visible game' = v"
        by (auto simp: dig_started)
      then show ?thesis by (simp add: fresh_closed_def)
    next
      case True
      then have arr: "in_array g (msw_index game row column)"
          "in_array (visible game) (msw_index game row column)"
        using lg lv game by (simp_all add: in_array_index)
      have b: "msw_in_bounds game row column" using True game by simp
      show ?thesis
      proof (cases "g ! ?i = MSW_CLEAR k \<and> v ! ?i \<noteq> MSW_CLEAR k")
        case A: True
        let ?v2 = "v[?i := MSW_CLEAR k]"
        from A game have A': "g ! nat (msw_index game row column) = MSW_CLEAR k"
          "visible game ! nat (msw_index game row column) \<noteq> MSW_CLEAR k" by simp_all
        from d obtain rs2 where
          n: "dig_neighbors k (obj\<lparr>visible := ?v2\<rparr>) row column 0 rs = Inr (game', rs2)"
          unfolding dig_open[OF gg b arr A'] using game by (auto split: sum.splits)
        have "Q (game\<lparr>visible := (visible game)
                    [nat (msw_index game row column) := MSW_CLEAR k]\<rparr>) row column 0"
          using b arr A' by (rule IH)
        then have fc: "fresh_closed k obj g ?v2 (visible game')"
          unfolding Q_def using game lv n by simp
        have ns: "nbrs_settled k obj g (visible game') row column"
          using neighbors_settle_all[OF g lg _ n] lv by simp
        show ?thesis
          unfolding fresh_closed_def
        proof (intro allI impI)
          fix r c
          assume rc: "msw_in_bounds obj r c" "cell_at obj g r c = MSW_CLEAR k"
            "cell_at obj (visible game') r c = MSW_CLEAR k" "cell_at obj v r c \<noteq> MSW_CLEAR k"
          show "nbrs_settled k obj g (visible game') r c"
          proof (cases "(r, c) = (row, column)")
            case True
            with ns show ?thesis by simp
          next
            case False
            then have "cell_at obj ?v2 r c = cell_at obj v r c"
              using rc(1) \<open>msw_in_bounds obj row column\<close> by (intro cell_at_update_other)
            with fc rc show ?thesis by (simp add: fresh_closed_def)
          qed
        qed
      next
        case nA: False
        then have nA': "\<not> (g ! nat (msw_index game row column) = MSW_CLEAR k \<and>
            visible game ! nat (msw_index game row column) \<noteq> MSW_CLEAR k)"
          using game by simp
        from d have v': "visible game' = v \<or> visible game' = v[?i := g ! ?i]"
          unfolding dig_shut[OF gg b arr nA'] using game by (auto split: if_splits)
        show ?thesis
          unfolding fresh_closed_def
        proof (intro allI impI)
          fix r c
          assume rc: "msw_in_bounds obj r c" "cell_at obj g r c = MSW_CLEAR k"
            "cell_at obj (visible game') r c = MSW_CLEAR k" "cell_at obj v r c \<noteq> MSW_CLEAR k"
          from v' rc(3,4) have upd: "visible game' = v[?i := g ! ?i]" by auto
          have "(r, c) = (row, column)"
          proof (rule ccontr)
            assume "(r, c) \<noteq> (row, column)"
            then have "cell_at obj (v[?i := g ! ?i]) r c = cell_at obj v r c"
              using rc(1) True by (intro cell_at_update_other)
            with upd rc(3,4) show False by simp
          qed
          with rc(2,4) nA have False by (simp add: cell_at_def)
          then show "nbrs_settled k obj g (visible game') r c" ..
        qed
      qed
    qed
  qed
  have nbr_case: "Q game row column n"
    if gg: "grid game = Some g"
      and IH1: "n < NUM_NEIGHBORS \<Longrightarrow> P game (row + rnbr ! n) (column + cnbr ! n)"
      and IH2: "\<And>game' st. \<lbrakk>n < NUM_NEIGHBORS;
          msw_dig k game (row + rnbr ! n) (column + cnbr ! n) rs = Inr (game', st, rs);
          grid game' = Some g\<rbrakk> \<Longrightarrow> Q game' row column (n + 1)"
    for game row column n
    unfolding Q_def
  proof (intro allI impI, elim conjE)
    fix v game'' rs''
    assume game: "game = obj\<lparr>visible := v\<rparr>" and lv: "length v = length g"
      and d: "dig_neighbors k game row column n rs = Inr (game'', rs'')"
    show "fresh_closed k obj g v (visible game'')"
    proof (cases "n < NUM_NEIGHBORS")
      case False
      with d have "game'' = game"
        by (subst (asm) dig_neighbors.simps) simp
      with game show ?thesis by (simp add: fresh_closed_def)
    next
      case True
      from neighbors_step[OF gg True d] obtain game1 st where
        d1: "msw_dig k game (row + rnbr ! n) (column + cnbr ! n) rs = Inr (game1, st, rs)"
        and g1: "grid game1 = Some g"
        and r: "dig_neighbors k game1 row column (n + 1) rs = Inr (game'', rs'')"
        by blast
      from started_frame(1)[OF g] d1 game have
        f1: "game1 = obj\<lparr>visible := visible game1\<rparr>" and rv1: "reveals k g v (visible game1)"
        by simp_all
      from rv1 lv have l1: "length (visible game1) = length g"
        by (simp add: reveals_def)
      from started_frame(2)[OF g, of k "visible game1"] r f1
      have rv2: "reveals k g (visible game1) (visible game'')" by simp
      have c1: "fresh_closed k obj g v (visible game1)"
        using IH1[OF True] game lv d1 unfolding P_def by blast
      have "Q game1 row column (n + 1)"
        using True d1 g1 by (rule IH2)
      then have c2: "fresh_closed k obj g (visible game1) (visible game'')"
        unfolding Q_def using f1 l1 r by blast
      show ?thesis
        unfolding fresh_closed_def
      proof (intro allI impI)
        fix r c
        assume rc: "msw_in_bounds obj r c" "cell_at obj g r c = MSW_CLEAR k"
          "cell_at obj (visible game'') r c = MSW_CLEAR k" "cell_at obj v r c \<noteq> MSW_CLEAR k"
        show "nbrs_settled k obj g (visible game'') r c"
        proof (cases "cell_at obj (visible game1) r c = MSW_CLEAR k")
          case True
          with c1 rc have "nbrs_settled k obj g (visible game1) r c"
            by (simp add: fresh_closed_def)
          from nbrs_settled_stable[OF this rv2] l1 lg show ?thesis by simp
        next
          case False
          with c2 rc show ?thesis by (simp add: fresh_closed_def)
        qed
      qed
    qed
  qed
  note ind = dig_induct[of g k Q P rs, OF dig_case nbr_case]
  show "length v = length g \<Longrightarrow>
         msw_dig k (obj\<lparr>visible := v\<rparr>) row column rs = Inr (game', st, rs') \<Longrightarrow>
         fresh_closed k obj g v (visible game')"
  proof -
    assume a: "length v = length g"
      "msw_dig k (obj\<lparr>visible := v\<rparr>) row column rs = Inr (game', st, rs')"
    have "P (obj\<lparr>visible := v\<rparr>) row column"
      using ind(1) g by simp
    then show ?thesis unfolding P_def using a by blast
  qed
  show "length v = length g \<Longrightarrow>
         dig_neighbors k (obj\<lparr>visible := v\<rparr>) row column n rs = Inr (game'', rs'') \<Longrightarrow>
         fresh_closed k obj g v (visible game'')"
  proof -
    assume a: "length v = length g"
      "dig_neighbors k (obj\<lparr>visible := v\<rparr>) row column n rs = Inr (game'', rs'')"
    have "Q (obj\<lparr>visible := v\<rparr>) row column n"
      using ind(2) g by simp
    then show ?thesis unfolding Q_def using a by blast
  qed
qed

text \<open>
  The indexes of the cells a dig at \<open>(r, c)\<close> may write: none out of bounds, the closure
  of the region for a clear cell, the cell alone otherwise.
\<close>

definition reach_idx :: "codes \<Rightarrow> smb_mine \<Rightarrow> cell list \<Rightarrow> int \<Rightarrow> int \<Rightarrow> nat set" where
  "reach_idx k obj g r c =
     (if \<not> msw_in_bounds obj r c then {}
      else if cell_at obj g r c = MSW_CLEAR k
        then (\<lambda>(i, j). nat (msw_index obj i j)) ` closure k obj g r c
        else {nat (msw_index obj r c)})"

lemma self_reach:
  assumes "msw_in_bounds obj r c"
  shows "nat (msw_index obj r c) \<in> reach_idx k obj g r c"
proof (cases "cell_at obj g r c = MSW_CLEAR k")
  case True
  with assms have "(r, c) \<in> closure k obj g r c"
    unfolding closure_def using region.start by blast
  then have "(\<lambda>(i, j). nat (msw_index obj i j)) (r, c)
      \<in> (\<lambda>(i, j). nat (msw_index obj i j)) ` closure k obj g r c"
    by (rule imageI)
  with assms True show ?thesis by (simp add: reach_idx_def)
next
  case False
  with assms show ?thesis by (simp add: reach_idx_def)
qed

lemma neighbor_reach:
  assumes b: "msw_in_bounds obj r c" and cl: "cell_at obj g r c = MSW_CLEAR k"
    and n: "n < NUM_NEIGHBORS"
  shows "reach_idx k obj g (r + rnbr ! n) (c + cnbr ! n) \<subseteq> reach_idx k obj g r c"
proof (cases "msw_in_bounds obj (r + rnbr ! n) (c + cnbr ! n)")
  case False
  then show ?thesis by (simp add: reach_idx_def)
next
  case True
  let ?r = "r + rnbr ! n" and ?c = "c + cnbr ! n"
  have adj: "adjacent r c ?r ?c"
    using n unfolding adjacent_def by blast
  have start: "(r, c) \<in> region k obj g r c"
    using b cl by (rule region.start)
  have whole: "reach_idx k obj g r c = (\<lambda>(i, j). nat (msw_index obj i j)) ` closure k obj g r c"
    using b cl by (simp add: reach_idx_def)
  show ?thesis
  proof (cases "cell_at obj g ?r ?c = MSW_CLEAR k")
    case clear: True
    from start adj True clear have "(?r, ?c) \<in> region k obj g r c"
      by (rule region.step)
    then have "closure k obj g ?r ?c \<subseteq> closure k obj g r c"
      by (auto intro: closure_neighbor)
    then show ?thesis
      unfolding whole using True clear by (auto simp: reach_idx_def)
  next
    case False
    have "(?r, ?c) \<in> closure k obj g r c"
      unfolding closure_def using start adj True by blast
    then have "(\<lambda>(i, j). nat (msw_index obj i j)) (?r, ?c)
        \<in> (\<lambda>(i, j). nat (msw_index obj i j)) ` closure k obj g r c"
      by (rule imageI)
    then show ?thesis
      unfolding whole using True False by (simp add: reach_idx_def)
  qed
qed

lemma dig_touches:
  assumes g: "grid obj = Some g" and lg: "length g = nat (rows obj * columns obj)"
  shows "length v = length g \<Longrightarrow>
         msw_dig k (obj\<lparr>visible := v\<rparr>) row column rs = Inr (game', st, rs') \<Longrightarrow>
         x < length v \<Longrightarrow> visible game' ! x \<noteq> v ! x \<Longrightarrow>
         x \<in> reach_idx k obj g row column"
    and "length v = length g \<Longrightarrow>
         dig_neighbors k (obj\<lparr>visible := v\<rparr>) row column n rs = Inr (game'', rs'') \<Longrightarrow>
         msw_in_bounds obj row column \<Longrightarrow> cell_at obj g row column = MSW_CLEAR k \<Longrightarrow>
         x < length v \<Longrightarrow> visible game'' ! x \<noteq> v ! x \<Longrightarrow>
         x \<in> reach_idx k obj g row column"
proof -
  define P where "P = (\<lambda>game row column. \<forall>v game' st rs'.
      game = obj\<lparr>visible := v\<rparr> \<and> length v = length g \<and>
      msw_dig k game row column rs = Inr (game', st, rs') \<longrightarrow>
      (\<forall>x<length v. visible game' ! x \<noteq> v ! x \<longrightarrow> x \<in> reach_idx k obj g row column))"
  define Q where "Q = (\<lambda>game row column n. \<forall>v game'' rs''.
      game = obj\<lparr>visible := v\<rparr> \<and> length v = length g \<and>
      dig_neighbors k game row column n rs = Inr (game'', rs'') \<and>
      msw_in_bounds obj row column \<and> cell_at obj g row column = MSW_CLEAR k \<longrightarrow>
      (\<forall>x<length v. visible game'' ! x \<noteq> v ! x \<longrightarrow> x \<in> reach_idx k obj g row column))"
  have dig_case: "P game row column"
    if gg: "grid game = Some g"
      and IH: "\<lbrakk>msw_in_bounds game row column; in_array g (msw_index game row column);
        in_array (visible game) (msw_index game row column);
        g ! nat (msw_index game row column) = MSW_CLEAR k;
        visible game ! nat (msw_index game row column) \<noteq> MSW_CLEAR k\<rbrakk>
       \<Longrightarrow> Q (game\<lparr>visible := (visible game)
                    [nat (msw_index game row column) := MSW_CLEAR k]\<rparr>) row column 0"
    for game row column
    unfolding P_def
  proof (intro allI impI, elim conjE)
    fix v game' st rs' x
    assume game: "game = obj\<lparr>visible := v\<rparr>" and lv: "length v = length g"
      and d: "msw_dig k game row column rs = Inr (game', st, rs')"
      and x: "x < length v" and ch: "visible game' ! x \<noteq> v ! x"
    let ?i = "nat (msw_index obj row column)"
    have b0: "msw_in_bounds obj row column"
    proof (rule ccontr)
      assume "\<not> msw_in_bounds obj row column"
      then have "msw_dig k game row column rs = Inr (game, 0, rs)"
        using game by (subst msw_dig.simps) simp
      with d game ch show False by simp
    qed
    then have arr: "in_array g (msw_index game row column)"
        "in_array (visible game) (msw_index game row column)"
      using lg lv game by (simp_all add: in_array_index)
    have b: "msw_in_bounds game row column" using b0 game by simp
    show "x \<in> reach_idx k obj g row column"
    proof (cases "g ! ?i = MSW_CLEAR k \<and> v ! ?i \<noteq> MSW_CLEAR k")
      case A: True
      let ?v2 = "v[?i := MSW_CLEAR k]"
      from A game have A': "g ! nat (msw_index game row column) = MSW_CLEAR k"
        "visible game ! nat (msw_index game row column) \<noteq> MSW_CLEAR k" by simp_all
      from d obtain rs2 where
        n: "dig_neighbors k (obj\<lparr>visible := ?v2\<rparr>) row column 0 rs = Inr (game', rs2)"
        unfolding dig_open[OF gg b arr A'] using game by (auto split: sum.splits)
      have "Q (game\<lparr>visible := (visible game)
                  [nat (msw_index game row column) := MSW_CLEAR k]\<rparr>) row column 0"
        using b arr A' by (rule IH)
      moreover have "game\<lparr>visible := (visible game)
                  [nat (msw_index game row column) := MSW_CLEAR k]\<rparr> = obj\<lparr>visible := ?v2\<rparr>"
        using game by simp
      moreover have "length ?v2 = length g" "cell_at obj g row column = MSW_CLEAR k"
        using lv A by (simp_all add: cell_at_def)
      ultimately have q: "\<forall>x<length ?v2. visible game' ! x \<noteq> ?v2 ! x \<longrightarrow>
          x \<in> reach_idx k obj g row column"
        unfolding Q_def using n b0 by metis
      show ?thesis
      proof (cases "x = ?i")
        case True
        then show ?thesis using self_reach[OF b0] by simp
      next
        case False
        then have "?v2 ! x = v ! x" by simp
        with q x ch show ?thesis by simp
      qed
    next
      case nA: False
      then have nA': "\<not> (g ! nat (msw_index game row column) = MSW_CLEAR k \<and>
          visible game ! nat (msw_index game row column) \<noteq> MSW_CLEAR k)"
        using game by simp
      from d have v': "visible game' = v \<or> visible game' = v[?i := g ! ?i]"
        unfolding dig_shut[OF gg b arr nA'] using game by (auto split: if_splits)
      have "x = ?i"
      proof (rule ccontr)
        assume "x \<noteq> ?i"
        then have "v[?i := g ! ?i] ! x = v ! x" by simp
        with v' ch show False by auto
      qed
      then show ?thesis using self_reach[OF b0] by simp
    qed
  qed
  have nbr_case: "Q game row column n"
    if gg: "grid game = Some g"
      and IH1: "n < NUM_NEIGHBORS \<Longrightarrow> P game (row + rnbr ! n) (column + cnbr ! n)"
      and IH2: "\<And>game' st. \<lbrakk>n < NUM_NEIGHBORS;
          msw_dig k game (row + rnbr ! n) (column + cnbr ! n) rs = Inr (game', st, rs);
          grid game' = Some g\<rbrakk> \<Longrightarrow> Q game' row column (n + 1)"
    for game row column n
    unfolding Q_def
  proof (intro allI impI, elim conjE)
    fix v game'' rs'' x
    assume game: "game = obj\<lparr>visible := v\<rparr>" and lv: "length v = length g"
      and d: "dig_neighbors k game row column n rs = Inr (game'', rs'')"
      and b: "msw_in_bounds obj row column" and cl: "cell_at obj g row column = MSW_CLEAR k"
      and x: "x < length v" and ch: "visible game'' ! x \<noteq> v ! x"
    have n: "n < NUM_NEIGHBORS"
    proof (rule ccontr)
      assume "\<not> n < NUM_NEIGHBORS"
      with d have "game'' = game"
        by (subst (asm) dig_neighbors.simps) simp
      with game ch show False by simp
    qed
    from neighbors_step[OF gg n d] obtain game1 st where
      d1: "msw_dig k game (row + rnbr ! n) (column + cnbr ! n) rs = Inr (game1, st, rs)"
      and g1: "grid game1 = Some g"
      and r: "dig_neighbors k game1 row column (n + 1) rs = Inr (game'', rs'')"
      by blast
    from started_frame(1)[OF g] d1 game have
      f1: "game1 = obj\<lparr>visible := visible game1\<rparr>" and rv1: "reveals k g v (visible game1)"
      by simp_all
    from rv1 lv have l1: "length (visible game1) = length g" "length (visible game1) = length v"
      by (simp_all add: reveals_def)
    show "x \<in> reach_idx k obj g row column"
    proof (cases "visible game1 ! x = v ! x")
      case False
      have "\<forall>x<length v. visible game1 ! x \<noteq> v ! x \<longrightarrow>
          x \<in> reach_idx k obj g (row + rnbr ! n) (column + cnbr ! n)"
        using IH1[OF n] game lv d1 unfolding P_def by blast
      with False x have "x \<in> reach_idx k obj g (row + rnbr ! n) (column + cnbr ! n)"
        by simp
      with neighbor_reach[OF b cl n] show ?thesis by blast
    next
      case True
      have "Q game1 row column (n + 1)"
        using n d1 g1 by (rule IH2)
      then have "\<forall>x<length (visible game1). visible game'' ! x \<noteq> visible game1 ! x \<longrightarrow>
          x \<in> reach_idx k obj g row column"
        unfolding Q_def using f1 l1(1) r b cl by blast
      with True x ch l1(2) show ?thesis by simp
    qed
  qed
  note ind = dig_induct[of g k Q P rs, OF dig_case nbr_case]
  show "length v = length g \<Longrightarrow>
         msw_dig k (obj\<lparr>visible := v\<rparr>) row column rs = Inr (game', st, rs') \<Longrightarrow>
         x < length v \<Longrightarrow> visible game' ! x \<noteq> v ! x \<Longrightarrow>
         x \<in> reach_idx k obj g row column"
  proof -
    assume a: "length v = length g"
      "msw_dig k (obj\<lparr>visible := v\<rparr>) row column rs = Inr (game', st, rs')"
      "x < length v" "visible game' ! x \<noteq> v ! x"
    have "P (obj\<lparr>visible := v\<rparr>) row column"
      using ind(1) g by simp
    then show ?thesis unfolding P_def using a by blast
  qed
  show "length v = length g \<Longrightarrow>
         dig_neighbors k (obj\<lparr>visible := v\<rparr>) row column n rs = Inr (game'', rs'') \<Longrightarrow>
         msw_in_bounds obj row column \<Longrightarrow> cell_at obj g row column = MSW_CLEAR k \<Longrightarrow>
         x < length v \<Longrightarrow> visible game'' ! x \<noteq> v ! x \<Longrightarrow>
         x \<in> reach_idx k obj g row column"
  proof -
    assume a: "length v = length g"
      "dig_neighbors k (obj\<lparr>visible := v\<rparr>) row column n rs = Inr (game'', rs'')"
      "msw_in_bounds obj row column" "cell_at obj g row column = MSW_CLEAR k"
      "x < length v" "visible game'' ! x \<noteq> v ! x"
    have "Q (obj\<lparr>visible := v\<rparr>) row column n"
      using ind(2) g by simp
    then show ?thesis unfolding Q_def using a by blast
  qed
qed

lemma closure_in_bounds:
  "(i, j) \<in> closure k obj g r c \<Longrightarrow> msw_in_bounds obj i j"
  unfolding closure_def using region_clear by blast

lemma border_not_clear:
  assumes "(i, j) \<in> closure k obj g r c" and "(i, j) \<notin> region k obj g r c"
  shows "cell_at obj g i j \<noteq> MSW_CLEAR k"
proof
  assume cl: "cell_at obj g i j = MSW_CLEAR k"
  from assms obtain a b where ab: "(a, b) \<in> region k obj g r c" "adjacent a b i j"
    and bd: "msw_in_bounds obj i j"
    unfolding closure_def by blast
  from ab bd cl have "(i, j) \<in> region k obj g r c" by (rule region.step)
  with assms(2) show False ..
qed

lemma flood_general:
  assumes g: "grid obj = Some g" and lg: "length g = nat (rows obj * columns obj)"
    and lv: "length v = length g"
    and b: "msw_in_bounds obj r c" and cl: "cell_at obj g r c = MSW_CLEAR k"
    and ne: "MSW_CLEAR k \<noteq> MSW_MINE k"
    and H: "\<And>i j. (i, j) \<in> region k obj g r c \<Longrightarrow> cell_at obj v i j \<noteq> MSW_CLEAR k"
  obtains v' where
    "msw_dig k (obj\<lparr>visible := v\<rparr>) r c rs = Inr (obj\<lparr>visible := v'\<rparr>, 1, rs)"
    and "length v' = length v"
    and "\<And>i j. (i, j) \<in> region k obj g r c \<Longrightarrow> cell_at obj v' i j = MSW_CLEAR k"
    and "\<And>i j. (i, j) \<in> closure k obj g r c \<Longrightarrow> (i, j) \<notin> region k obj g r c \<Longrightarrow>
           cell_at obj g i j \<noteq> MSW_MINE k \<Longrightarrow>
           cell_at obj v' i j = (if cell_at obj v i j = MSW_FLAG k then MSW_FLAG k
                                 else cell_at obj g i j)"
    and "\<And>i j. msw_in_bounds obj i j \<Longrightarrow> (i, j) \<notin> closure k obj g r c \<Longrightarrow>
           cell_at obj v' i j = cell_at obj v i j"
proof -
  let ?game = "obj\<lparr>visible := v\<rparr>"
  have gg: "grid ?game = Some g" using g by simp
  have bb: "msw_in_bounds ?game r c" using b by simp
  from dig_total(1)[OF g lg lv, of k r c rs] obtain v' st where
    d: "msw_dig k ?game r c rs = Inr (obj\<lparr>visible := v'\<rparr>, st, rs)" by blast
  have nm: "g ! nat (msw_index ?game r c) \<noteq> MSW_MINE k"
    using cl ne by (simp add: cell_at_def)
  have st: "st = 1"
    using dig_settles_started(3)[OF gg bb d nm] .
  have s0: "settled k g v' (nat (msw_index obj r c))"
    using dig_settles_started(4)[OF gg bb d nm] by simp
  have rv: "reveals k g v v'"
    using started_frame(1)[OF g d] by simp
  then have lv': "length v' = length v" by (simp add: reveals_def)
  have fc: "fresh_closed k obj g v v'"
    using dig_closes(1)[OF g lg lv d] by simp
  have opened: "cell_at obj v' i j = MSW_CLEAR k" if "(i, j) \<in> region k obj g r c" for i j
    using that
  proof (induction rule: region.induct)
    case start
    from s0 cl show ?case by (auto simp: settled_def cell_at_def)
  next
    case (step i j i' j')
    from region_clear[OF step.hyps(1)] H[OF step.hyps(1)] step.IH fc
    have "nbrs_settled k obj g v' i j"
      by (simp add: fresh_closed_def)
    with step.hyps(2,3) have
      "cell_at obj g i' j' = MSW_MINE k \<or> settled k g v' (nat (msw_index obj i' j'))"
      unfolding nbrs_settled_def by blast
    with step.hyps(4) ne show ?case
      by (auto simp: settled_def cell_at_def)
  qed
  have border: "cell_at obj v' i j = (if cell_at obj v i j = MSW_FLAG k then MSW_FLAG k
                                 else cell_at obj g i j)"
    if c: "(i, j) \<in> closure k obj g r c" and nr: "(i, j) \<notin> region k obj g r c"
      and nmine: "cell_at obj g i j \<noteq> MSW_MINE k" for i j
  proof -
    from c nr obtain a b' where ab: "(a, b') \<in> region k obj g r c" "adjacent a b' i j"
      and bd: "msw_in_bounds obj i j"
      unfolding closure_def by blast
    from region_clear[OF ab(1)] H[OF ab(1)] opened[OF ab(1)] fc
    have "nbrs_settled k obj g v' a b'"
      by (simp add: fresh_closed_def)
    with ab(2) bd nmine have s: "settled k g v' (nat (msw_index obj i j))"
      unfolding nbrs_settled_def by blast
    have ncl: "cell_at obj g i j \<noteq> MSW_CLEAR k"
      using border_not_clear[OF c nr] .
    have x: "nat (msw_index obj i j) < length v"
      using index_nat_less[OF bd lg] lv by simp
    with rv have "v' ! nat (msw_index obj i j) = v ! nat (msw_index obj i j) \<or>
        (v' ! nat (msw_index obj i j) = g ! nat (msw_index obj i j) \<and>
         (v ! nat (msw_index obj i j) = MSW_FLAG k \<longrightarrow>
            g ! nat (msw_index obj i j) = MSW_CLEAR k \<or> g ! nat (msw_index obj i j) = MSW_MINE k))"
      by (simp add: reveals_def)
    with s ncl nmine show ?thesis
      unfolding settled_def cell_at_def by metis
  qed
  have outside: "cell_at obj v' i j = cell_at obj v i j"
    if bd: "msw_in_bounds obj i j" and nc: "(i, j) \<notin> closure k obj g r c" for i j
  proof (rule ccontr)
    assume "cell_at obj v' i j \<noteq> cell_at obj v i j"
    then have ch: "visible (obj\<lparr>visible := v'\<rparr>) ! nat (msw_index obj i j)
        \<noteq> v ! nat (msw_index obj i j)"
      by (simp add: cell_at_def)
    have x: "nat (msw_index obj i j) < length v"
      using index_nat_less[OF bd lg] lv by simp
    from dig_touches(1)[OF g lg lv d x ch] b cl
    have "nat (msw_index obj i j) \<in> (\<lambda>(i, j). nat (msw_index obj i j)) ` closure k obj g r c"
      by (simp add: reach_idx_def)
    then obtain a b' where ab: "(a, b') \<in> closure k obj g r c"
      "nat (msw_index obj i j) = nat (msw_index obj a b')" by auto
    from index_nat_inject[OF bd closure_in_bounds[OF ab(1)] ab(2)] ab(1) nc
    show False by simp
  qed
  from that[of v'] d st lv' opened border outside show thesis by blast
qed

text \<open>
  The counts of the true grid \<open>g\<close> are consistent with its mines: every in-bounds cell
  that is no mine holds the clear code plus the number of its mine neighbours.
\<close>

definition counts_consistent :: "codes \<Rightarrow> smb_mine \<Rightarrow> cell list \<Rightarrow> bool" where
  "counts_consistent k obj g \<longleftrightarrow>
     (\<forall>r \<in> {0..<rows obj}. \<forall>c \<in> {0..<columns obj}.
        g ! nat (msw_index obj r c) \<noteq> MSW_MINE k \<longrightarrow>
        g ! nat (msw_index obj r c) = MSW_CLEAR k + of_nat (mine_neighbors k obj g r c))"

lemma mine_neighbors_le: "mine_neighbors k obj g r c \<le> 8"
proof -
  have "mine_neighbors k obj g r c \<le> length [0..<NUM_NEIGHBORS]"
    unfolding mine_neighbors_def by (rule length_filter_le)
  then show ?thesis by (simp add: NUM_NEIGHBORS_def)
qed

lemma clear_no_mine_neighbor:
  assumes cc: "counts_consistent k obj g" and ne: "MSW_CLEAR k \<noteq> MSW_MINE k"
    and b: "msw_in_bounds obj r c" and cl: "cell_at obj g r c = MSW_CLEAR k"
    and adj: "adjacent r c i j" and bd: "msw_in_bounds obj i j"
  shows "cell_at obj g i j \<noteq> MSW_MINE k"
proof
  assume mine: "cell_at obj g i j = MSW_MINE k"
  let ?m = "mine_neighbors k obj g r c"
  from b have "r \<in> {0..<rows obj}" "c \<in> {0..<columns obj}"
    by (simp_all add: msw_in_bounds_def)
  with cc cl ne have "MSW_CLEAR k = MSW_CLEAR k + (of_nat ?m :: cell)"
    unfolding counts_consistent_def cell_at_def by metis
  then have "(of_nat ?m :: cell) = 0" by simp
  then have "?m mod 256 = 0"
    by (simp add: of_nat_eq_0_iff word_of_nat_eq_0_iff)
  with mine_neighbors_le[of k obj g r c] have zero: "?m = 0" by simp
  from adj obtain n where n: "n < NUM_NEIGHBORS" "i = r + rnbr ! n" "j = c + cnbr ! n"
    by (auto simp: adjacent_def)
  let ?F = "filter (\<lambda>n. msw_in_bounds obj (r + rnbr ! n) (c + cnbr ! n) \<and>
        g ! nat (msw_index obj (r + rnbr ! n) (c + cnbr ! n)) = MSW_MINE k) [0..<NUM_NEIGHBORS]"
  from n bd mine have "n \<in> set ?F"
    by (simp add: cell_at_def)
  moreover from zero have "?F = []"
    unfolding mine_neighbors_def by simp
  ultimately show False by simp
qed

lemma generated_consistent:
  assumes "msw_generate_grid k obj g0 rs = Inr (g, rs')" and "counts_fit k"
  shows "counts_consistent k obj g"
  unfolding counts_consistent_def
proof (intro ballI impI)
  fix r c assume "r \<in> {0..<rows obj}" "c \<in> {0..<columns obj}"
    and nm: "g ! nat (msw_index obj r c) \<noteq> MSW_MINE k"
  then have "msw_in_bounds obj r c" by (simp add: msw_in_bounds_def)
  from generated_cell[OF assms this nm]
  show "g ! nat (msw_index obj r c) = MSW_CLEAR k + of_nat (mine_neighbors k obj g r c)" .
qed

text \<open>
  The calls of \<^verbatim>\<open>msw_dig\<close> that are made while the call on \<open>game\<close> at
  \<open>(row, column)\<close> runs, on a session whose grid exists: the call itself and, when it
  takes the flood-fill branch, every call that its loop over the neighbours makes, directly
  or nested, each on the session that the calls before it left.
\<close>

inductive dig_calls ::
    "codes \<Rightarrow> smb_mine \<Rightarrow> int \<Rightarrow> int \<Rightarrow> nat list \<Rightarrow> smb_mine \<Rightarrow> int \<Rightarrow> int \<Rightarrow> bool"
  and neighbor_calls ::
    "codes \<Rightarrow> smb_mine \<Rightarrow> int \<Rightarrow> int \<Rightarrow> nat \<Rightarrow> nat list \<Rightarrow> smb_mine \<Rightarrow> int \<Rightarrow> int \<Rightarrow> bool"
  for k :: codes
where
  self: "dig_calls k game row column rs game row column"
| nested:
    "\<lbrakk>grid game = Some g; msw_in_bounds game row column;
      in_array g (msw_index game row column);
      in_array (visible game) (msw_index game row column);
      g ! nat (msw_index game row column) = MSW_CLEAR k;
      visible game ! nat (msw_index game row column) \<noteq> MSW_CLEAR k;
      neighbor_calls k
        (game\<lparr>visible := (visible game)[nat (msw_index game row column) := MSW_CLEAR k]\<rparr>)
        row column 0 rs game' row' column'\<rbrakk>
     \<Longrightarrow> dig_calls k game row column rs game' row' column'"
| first:
    "\<lbrakk>n < NUM_NEIGHBORS;
      dig_calls k game (row + rnbr ! n) (column + cnbr ! n) rs game' row' column'\<rbrakk>
     \<Longrightarrow> neighbor_calls k game row column n rs game' row' column'"
| rest:
    "\<lbrakk>n < NUM_NEIGHBORS;
      msw_dig k game (row + rnbr ! n) (column + cnbr ! n) rs = Inr (game1, st, rs1);
      neighbor_calls k game1 row column (n + 1) rs1 game' row' column'\<rbrakk>
     \<Longrightarrow> neighbor_calls k game row column n rs game' row' column'"

lemma calls_on_safe_cells:
  assumes g: "grid obj = Some g"
    and cc: "counts_consistent k obj g" and ne: "MSW_CLEAR k \<noteq> MSW_MINE k"
  shows "dig_calls k game row column rs game' row' column' \<Longrightarrow>
         (\<exists>v. game = obj\<lparr>visible := v\<rparr> \<and> length v = length g) \<and>
         (msw_in_bounds obj row column \<longrightarrow> cell_at obj g row column \<noteq> MSW_MINE k) \<longrightarrow>
         (\<exists>v'. game' = obj\<lparr>visible := v'\<rparr> \<and> length v' = length g) \<and>
         (msw_in_bounds obj row' column' \<longrightarrow> cell_at obj g row' column' \<noteq> MSW_MINE k)"
    and "neighbor_calls k game row column n rs game' row' column' \<Longrightarrow>
         (\<exists>v. game = obj\<lparr>visible := v\<rparr> \<and> length v = length g) \<and>
         msw_in_bounds obj row column \<and> cell_at obj g row column = MSW_CLEAR k \<longrightarrow>
         (\<exists>v'. game' = obj\<lparr>visible := v'\<rparr> \<and> length v' = length g) \<and>
         (msw_in_bounds obj row' column' \<longrightarrow> cell_at obj g row' column' \<noteq> MSW_MINE k)"
proof (induction rule: dig_calls_neighbor_calls.inducts)
  case (self game row column rs)
  show ?case by simp
next
  case (nested game g' row column rs game' row' column')
  show ?case
  proof (intro impI, elim conjE exE)
    fix v assume a: "game = obj\<lparr>visible := v\<rparr>" "length v = length g"
    with nested(1) g have gg: "g' = g" by simp
    from a nested(2,5) gg
    have bc: "msw_in_bounds obj row column" "cell_at obj g row column = MSW_CLEAR k"
      by (simp_all add: cell_at_def)
    have "game\<lparr>visible := (visible game)[nat (msw_index game row column) := MSW_CLEAR k]\<rparr>
        = obj\<lparr>visible := v[nat (msw_index obj row column) := MSW_CLEAR k]\<rparr>"
      using a(1) by simp
    moreover have "length (v[nat (msw_index obj row column) := MSW_CLEAR k]) = length g"
      using a(2) by simp
    ultimately have "\<exists>w. game\<lparr>visible := (visible game)[nat (msw_index game row column) := MSW_CLEAR k]\<rparr>
        = obj\<lparr>visible := w\<rparr> \<and> length w = length g"
      by blast
    with nested(8) bc show "(\<exists>v'. game' = obj\<lparr>visible := v'\<rparr> \<and> length v' = length g) \<and>
        (msw_in_bounds obj row' column' \<longrightarrow> cell_at obj g row' column' \<noteq> MSW_MINE k)"
      by blast
  qed
next
  case (first n game row column rs game' row' column')
  show ?case
  proof (intro impI, elim conjE)
    assume a: "\<exists>v. game = obj\<lparr>visible := v\<rparr> \<and> length v = length g"
      "msw_in_bounds obj row column" "cell_at obj g row column = MSW_CLEAR k"
    have "adjacent row column (row + rnbr ! n) (column + cnbr ! n)"
      using first(1) unfolding adjacent_def by blast
    then have "msw_in_bounds obj (row + rnbr ! n) (column + cnbr ! n) \<longrightarrow>
        cell_at obj g (row + rnbr ! n) (column + cnbr ! n) \<noteq> MSW_MINE k"
      using clear_no_mine_neighbor[OF cc ne a(2,3)] by blast
    with first(3) a(1) show "(\<exists>v'. game' = obj\<lparr>visible := v'\<rparr> \<and> length v' = length g) \<and>
        (msw_in_bounds obj row' column' \<longrightarrow> cell_at obj g row' column' \<noteq> MSW_MINE k)"
      by blast
  qed
next
  case (rest n game row column rs game1 st rs1 game' row' column')
  show ?case
  proof (intro impI, elim conjE exE)
    fix v assume a: "game = obj\<lparr>visible := v\<rparr>" "length v = length g"
      "msw_in_bounds obj row column" "cell_at obj g row column = MSW_CLEAR k"
    from rest(2) a(1) have
      "msw_dig k (obj\<lparr>visible := v\<rparr>) (row + rnbr ! n) (column + cnbr ! n) rs = Inr (game1, st, rs1)"
      by simp
    from started_frame(1)[OF g this] a(2)
    have "game1 = obj\<lparr>visible := visible game1\<rparr>" "length (visible game1) = length g"
      by (simp_all add: reveals_def)
    then have "\<exists>w. game1 = obj\<lparr>visible := w\<rparr> \<and> length w = length g" by blast
    with rest(4) a(3,4) show "(\<exists>v'. game' = obj\<lparr>visible := v'\<rparr> \<and> length v' = length g) \<and>
        (msw_in_bounds obj row' column' \<longrightarrow> cell_at obj g row' column' \<noteq> MSW_MINE k)"
      by blast
  qed
qed

text \<open>
  C10. On a session whose true grid \<open>g\<close> has counts consistent with its mines, take a dig
  at an in-bounds cell whose true value is clear, whatever the cell shows. Every call of
  \<^verbatim>\<open>msw_dig\<close> made during that dig, nested ones included, runs on the same session up to
  the visible board, and is either out of bounds or on a cell that is no mine, where it
  returns 1: the branch that writes a mine and returns -1 is never taken. The dig
  itself returns 1.
\<close>

theorem clear_dig_never_detonates:
  assumes g: "grid game = Some g" and lg: "length g = nat (rows game * columns game)"
    and lv: "length (visible game) = length g"
    and cc: "counts_consistent k game g" and ne: "MSW_CLEAR k \<noteq> MSW_MINE k"
    and b: "msw_in_bounds game row column"
    and cl: "g ! nat (msw_index game row column) = MSW_CLEAR k"
  shows "(\<exists>game'. msw_dig k game row column rs = Inr (game', 1, rs)) \<and>
         (\<forall>game1 r1 c1. dig_calls k game row column rs game1 r1 c1 \<longrightarrow>
            game1 = game\<lparr>visible := visible game1\<rparr> \<and>
            (msw_in_bounds game1 r1 c1 \<longrightarrow>
               g ! nat (msw_index game1 r1 c1) \<noteq> MSW_MINE k \<and>
               (\<exists>game2. msw_dig k game1 r1 c1 rs = Inr (game2, 1, rs))))"
proof -
  have start: "(\<exists>v. game = game\<lparr>visible := v\<rparr> \<and> length v = length g) \<and>
      (msw_in_bounds game row column \<longrightarrow> cell_at game g row column \<noteq> MSW_MINE k)"
  proof -
    have "game = game\<lparr>visible := visible game\<rparr>" by simp
    with lv have "\<exists>v. game = game\<lparr>visible := v\<rparr> \<and> length v = length g" by blast
    with cl ne show ?thesis by (simp add: cell_at_def)
  qed
  have calls: "game1 = game\<lparr>visible := visible game1\<rparr> \<and>
      (msw_in_bounds game1 r1 c1 \<longrightarrow>
         g ! nat (msw_index game1 r1 c1) \<noteq> MSW_MINE k \<and>
         (\<exists>game2. msw_dig k game1 r1 c1 rs = Inr (game2, 1, rs)))"
    if c: "dig_calls k game row column rs game1 r1 c1" for game1 r1 c1
  proof -
    from calls_on_safe_cells(1)[OF g cc ne c] start obtain v' where
      v': "game1 = game\<lparr>visible := v'\<rparr>" "length v' = length g"
      and safe: "msw_in_bounds game r1 c1 \<longrightarrow> cell_at game g r1 c1 \<noteq> MSW_MINE k"
      by blast
    from v'(1) have frame: "game1 = game\<lparr>visible := visible game1\<rparr>" by simp
    have "g ! nat (msw_index game1 r1 c1) \<noteq> MSW_MINE k \<and>
        (\<exists>game2. msw_dig k game1 r1 c1 rs = Inr (game2, 1, rs))"
      if b1: "msw_in_bounds game1 r1 c1"
    proof -
      from b1 v'(1) safe have nm: "g ! nat (msw_index game1 r1 c1) \<noteq> MSW_MINE k"
        by (simp add: cell_at_def)
      from v'(1) g have g1: "grid game1 = Some g" by simp
      from dig_total(1)[OF g lg v'(2), of k r1 c1 rs] v'(1) obtain w st where
        d: "msw_dig k game1 r1 c1 rs = Inr (game\<lparr>visible := w\<rparr>, st, rs)" by auto
      from dig_settles_started(3)[OF g1 b1 d nm] d nm show ?thesis by blast
    qed
    with frame show ?thesis by blast
  qed
  from calls[OF dig_calls_neighbor_calls.self] b show ?thesis
    using calls by blast
qed

theorem clear_dig_never_detonates_witness:
  "counts_consistent ascii_codes
     \<lparr>rows = 1, columns = 3, mines = 1, grid = Some [0x2A, 0x31, 0x30],
      visible = [0x3F, 0x3F, 0x3F]\<rparr> [0x2A, 0x31, 0x30] \<and>
   msw_in_bounds \<lparr>rows = 1, columns = 3, mines = 1, grid = Some [0x2A, 0x31, 0x30],
      visible = [0x3F, 0x3F, 0x3F]\<rparr> 0 2 \<and>
   dig_calls ascii_codes
     \<lparr>rows = 1, columns = 3, mines = 1, grid = Some [0x2A, 0x31, 0x30],
      visible = [0x3F, 0x3F, 0x3F]\<rparr> 0 2 []
     \<lparr>rows = 1, columns = 3, mines = 1, grid = Some [0x2A, 0x31, 0x30],
      visible = [0x3F, 0x3F, 0x30]\<rparr> 0 1 \<and>
   [0x2A, 0x31, 0x30 :: cell] ! nat (msw_index
     \<lparr>rows = 1, columns = 3, mines = 1, grid = Some [0x2A, 0x31, 0x30],
      visible = [0x3F, 0x3F, 0x30]\<rparr> 0 1) \<noteq> MSW_MINE ascii_codes \<and>
   (\<exists>game2. msw_dig ascii_codes
     \<lparr>rows = 1, columns = 3, mines = 1, grid = Some [0x2A, 0x31, 0x30],
      visible = [0x3F, 0x3F, 0x30]\<rparr> 0 1 [] = Inr (game2, 1, [])) \<and>
   msw_dig ascii_codes
     \<lparr>rows = 1, columns = 3, mines = 1, grid = Some [0x2A, 0x31, 0x30],
      visible = [0x3F, 0x3F, 0x3F]\<rparr> 0 2 []
     = Inr (\<lparr>rows = 1, columns = 3, mines = 1, grid = Some [0x2A, 0x31, 0x30],
             visible = [0x3F, 0x31, 0x30]\<rparr>, 1, [])"
proof -
  let ?g = "[0x2A, 0x31, 0x30 :: cell]"
  let ?G = "\<lparr>rows = 1, columns = 3, mines = 1, grid = Some ?g, visible = [0x3F, 0x3F, 0x3F :: cell]\<rparr>"
  let ?G1 = "\<lparr>rows = 1, columns = 3, mines = 1, grid = Some ?g, visible = [0x3F, 0x3F, 0x30 :: cell]\<rparr>"
  have g: "grid ?G = Some ?g" by simp
  have lg: "length ?g = nat (rows ?G * columns ?G)" by simp
  have lv: "length (visible ?G) = length ?g" by simp
  have cc: "counts_consistent ascii_codes ?G ?g" by code_simp
  have ne: "MSW_CLEAR ascii_codes \<noteq> MSW_MINE ascii_codes" by code_simp
  have b: "msw_in_bounds ?G 0 2" by code_simp
  have cl: "?g ! nat (msw_index ?G 0 2) = MSW_CLEAR ascii_codes" by code_simp
  have b1: "msw_in_bounds ?G1 0 1" by code_simp
  have n0: "0 < NUM_NEIGHBORS" and n1: "1 < NUM_NEIGHBORS" and n2: "2 < NUM_NEIGHBORS"
    and n3: "3 < NUM_NEIGHBORS"
    by (simp_all add: NUM_NEIGHBORS_def)
  have e: "(2::nat) + 1 = 3" "(1::nat) + 1 = 2" "(0::nat) + 1 = 1" by simp_all
  have d0: "msw_dig ascii_codes ?G1 (0 + rnbr ! 0) (2 + cnbr ! 0) [] = Inr (?G1, 0, [])"
    by code_simp
  have d1: "msw_dig ascii_codes ?G1 (0 + rnbr ! 1) (2 + cnbr ! 1) [] = Inr (?G1, 0, [])"
    by code_simp
  have d2: "msw_dig ascii_codes ?G1 (0 + rnbr ! 2) (2 + cnbr ! 2) [] = Inr (?G1, 0, [])"
    by code_simp
  have "dig_calls ascii_codes ?G1 (0 + rnbr ! 3) (2 + cnbr ! 3) [] ?G1 0 1"
    by (simp add: rnbr_def cnbr_def dig_calls_neighbor_calls.self)
  from dig_calls_neighbor_calls.first[OF n3 this]
  have "neighbor_calls ascii_codes ?G1 0 2 (2 + 1) [] ?G1 0 1" by (simp only: e)
  from dig_calls_neighbor_calls.rest[OF n2 d2 this]
  have "neighbor_calls ascii_codes ?G1 0 2 (1 + 1) [] ?G1 0 1" by (simp only: e)
  from dig_calls_neighbor_calls.rest[OF n1 d1 this]
  have "neighbor_calls ascii_codes ?G1 0 2 (0 + 1) [] ?G1 0 1" by (simp only: e)
  from dig_calls_neighbor_calls.rest[OF n0 d0 this]
  have nc: "neighbor_calls ascii_codes ?G1 0 2 0 [] ?G1 0 1" .
  have upd: "?G\<lparr>visible := (visible ?G)[nat (msw_index ?G 0 2) := MSW_CLEAR ascii_codes]\<rparr> = ?G1"
    by (simp add: msw_index_def ascii_codes_def)
  have c: "dig_calls ascii_codes ?G 0 2 [] ?G1 0 1"
  proof (rule dig_calls_neighbor_calls.nested[where g = ?g])
    show "grid ?G = Some ?g" by simp
    show "msw_in_bounds ?G 0 2" by (rule b)
    show "in_array ?g (msw_index ?G 0 2)" by code_simp
    show "in_array (visible ?G) (msw_index ?G 0 2)" by code_simp
    show "?g ! nat (msw_index ?G 0 2) = MSW_CLEAR ascii_codes" by (rule cl)
    show "visible ?G ! nat (msw_index ?G 0 2) \<noteq> MSW_CLEAR ascii_codes" by code_simp
    show "neighbor_calls ascii_codes
        (?G\<lparr>visible := (visible ?G)[nat (msw_index ?G 0 2) := MSW_CLEAR ascii_codes]\<rparr>)
        0 2 0 [] ?G1 0 1"
      unfolding upd by (rule nc)
  qed
  have r: "msw_dig ascii_codes ?G 0 2 []
      = Inr (\<lparr>rows = 1, columns = 3, mines = 1, grid = Some ?g, visible = [0x3F, 0x31, 0x30]\<rparr>, 1, [])"
    by code_simp
  from clear_dig_never_detonates[OF g lg lv cc ne b cl, of "[]"] c b1
  have "?g ! nat (msw_index ?G1 0 1) \<noteq> MSW_MINE ascii_codes \<and>
      (\<exists>game2. msw_dig ascii_codes ?G1 0 1 [] = Inr (game2, 1, []))"
    by blast
  with cc b c r show ?thesis by blast
qed

section \<open>Sequences of operations\<close>

text \<open>
  One operation of the player on a session, as the loop of \<^verbatim>\<open>main\<close> issues them: a dig
  or a flag at any coordinates, with any supply of random numbers, that returns.
\<close>

inductive play_step :: "codes \<Rightarrow> smb_mine \<Rightarrow> smb_mine \<Rightarrow> bool" for k :: codes where
  dig: "msw_dig k game row column rs = Inr (game', st, rs') \<Longrightarrow> play_step k game game'"
| flag: "msw_flag k game r c = Inr (game', st) \<Longrightarrow> play_step k game game'"

text \<open>
  Every cell of the visible board is unknown, flagged, or shows its value in the true
  grid.
\<close>

definition visible_sound :: "codes \<Rightarrow> smb_mine \<Rightarrow> bool" where
  "visible_sound k game \<longleftrightarrow>
     (\<forall>i<length (visible game).
        visible game ! i = MSW_UNKNOWN k \<or> visible game ! i = MSW_FLAG k \<or>
        (\<exists>g. grid game = Some g \<and> visible game ! i = g ! i))"

text \<open>The cells of \<open>v\<close> that are neither unknown nor flagged are the same in \<open>v'\<close>.\<close>

definition keeps_shown :: "codes \<Rightarrow> cell list \<Rightarrow> cell list \<Rightarrow> bool" where
  "keeps_shown k v v' \<longleftrightarrow>
     length v' = length v \<and>
     (\<forall>i<length v. v ! i \<noteq> MSW_UNKNOWN k \<longrightarrow> v ! i \<noteq> MSW_FLAG k \<longrightarrow> v' ! i = v ! i)"

lemma keeps_shown_refl: "keeps_shown k v v"
  by (simp add: keeps_shown_def)

lemma keeps_shown_trans:
  assumes "keeps_shown k v1 v2" and "keeps_shown k v2 v3"
  shows "keeps_shown k v1 v3"
  using assms unfolding keeps_shown_def by auto

lemma create_sound: "visible_sound k (smb_mine_create k rows' columns' mines')"
  by (simp add: visible_sound_def smb_mine_create_def smb_mine_init_def smb_new_def
      unknown_cells_all)

lemma dig_started_sound:
  assumes g: "grid game = Some g" and s: "visible_sound k game"
    and d: "msw_dig k game row column rs = Inr (game', st, rs')"
  shows "visible_sound k game'" and "keeps_shown k (visible game) (visible game')"
proof -
  from dig_frame(1)[OF d g] have f: "game' = game\<lparr>visible := visible game'\<rparr>"
    and r: "reveals k g (visible game) (visible game')"
    by simp_all
  from frame_grid[OF f] g have g': "grid game' = Some g" by simp
  from r have l: "length (visible game') = length (visible game)"
    by (simp add: reveals_def)
  have step: "visible game' ! i = visible game ! i \<or> visible game' ! i = g ! i"
    if "i < length (visible game)" for i
    using r that unfolding reveals_def by blast
  have old: "visible game ! i = MSW_UNKNOWN k \<or> visible game ! i = MSW_FLAG k \<or>
      visible game ! i = g ! i" if "i < length (visible game)" for i
    using s g that unfolding visible_sound_def by auto
  show "visible_sound k game'"
    unfolding visible_sound_def
  proof (intro allI impI)
    fix i assume "i < length (visible game')"
    with l have i: "i < length (visible game)" by simp
    from step[OF i] old[OF i] g'
    show "visible game' ! i = MSW_UNKNOWN k \<or> visible game' ! i = MSW_FLAG k \<or>
        (\<exists>g. grid game' = Some g \<and> visible game' ! i = g ! i)"
      by auto
  qed
  show "keeps_shown k (visible game) (visible game')"
    unfolding keeps_shown_def
  proof (intro conjI allI impI)
    show "length (visible game') = length (visible game)" by (rule l)
  next
    fix i assume i: "i < length (visible game)"
      and "visible game ! i \<noteq> MSW_UNKNOWN k" "visible game ! i \<noteq> MSW_FLAG k"
    with old[OF i] have "visible game ! i = g ! i" by simp
    with step[OF i] show "visible game' ! i = visible game ! i" by auto
  qed
qed

lemma dig_sound:
  assumes s: "visible_sound k game"
    and d: "msw_dig k game row column rs = Inr (game', st, rs')"
  shows "visible_sound k game' \<and> keeps_shown k (visible game) (visible game')"
proof (cases "grid game")
  case (Some g)
  from dig_started_sound[OF Some s d] show ?thesis by simp
next
  case None
  show ?thesis
  proof (cases "msw_in_bounds game row column")
    case False
    then have "msw_dig k game row column rs = Inr (game, 0, rs)"
      by (subst msw_dig.simps) simp
    with d s show ?thesis by (simp add: keeps_shown_refl)
  next
    case True
    with None d obtain game1 rs1 where
      i: "msw_initial_grid k game row column rs = Inr (game1, rs1)"
      and d1: "msw_dig k game1 row column rs1 = Inr (game', st, rs')"
      by (auto simp: dig_first split: sum.splits)
    from i obtain g where g1: "game1 = game\<lparr>grid := Some g\<rparr>"
      using initial_grid_result by blast
    then have gg: "grid game1 = Some g" and v1: "visible game1 = visible game"
      by simp_all
    have s1: "visible_sound k game1"
      using s None v1 unfolding visible_sound_def by auto
    from dig_started_sound[OF gg s1 d1] v1 show ?thesis by simp
  qed
qed

lemma flag_sound:
  assumes s: "visible_sound k game" and f: "msw_flag k game r c = Inr (game', st)"
  shows "visible_sound k game' \<and> keeps_shown k (visible game) (visible game')"
proof (cases "visible game ! nat (msw_index game r c) = MSW_UNKNOWN k")
  case False
  with f have "game' = game"
    by (auto simp: msw_flag_def split: if_splits)
  with s show ?thesis by (simp add: keeps_shown_refl)
next
  case True
  let ?x = "nat (msw_index game r c)"
  from True f have g': "game' = game\<lparr>visible := (visible game)[?x := MSW_FLAG k]\<rparr>"
    by (auto simp: msw_flag_def split: if_splits)
  have "visible_sound k game'"
    unfolding visible_sound_def
  proof (intro allI impI)
    fix i assume "i < length (visible game')"
    with g' have i: "i < length (visible game)" by simp
    with s have "visible game ! i = MSW_UNKNOWN k \<or> visible game ! i = MSW_FLAG k \<or>
        (\<exists>g. grid game = Some g \<and> visible game ! i = g ! i)"
      unfolding visible_sound_def by simp
    with g' i show "visible game' ! i = MSW_UNKNOWN k \<or> visible game' ! i = MSW_FLAG k \<or>
        (\<exists>g. grid game' = Some g \<and> visible game' ! i = g ! i)"
      by (cases "i = ?x") auto
  qed
  moreover have "keeps_shown k (visible game) (visible game')"
    unfolding keeps_shown_def
  proof (intro conjI allI impI)
    show "length (visible game') = length (visible game)" using g' by simp
  next
    fix i assume "i < length (visible game)" and "visible game ! i \<noteq> MSW_UNKNOWN k"
    with True have "i \<noteq> ?x" by auto
    with g' show "visible game' ! i = visible game ! i" by simp
  qed
  ultimately show ?thesis by simp
qed

lemma step_sound:
  assumes "play_step k game game'" and "visible_sound k game"
  shows "visible_sound k game' \<and> keeps_shown k (visible game) (visible game')"
  using assms
proof (cases rule: play_step.cases)
  case (dig row column rs st rs')
  from dig_sound[OF assms(2) dig] show ?thesis .
next
  case (flag r c st)
  from flag_sound[OF assms(2) flag] show ?thesis .
qed

lemma steps_sound:
  assumes "(play_step k)\<^sup>*\<^sup>* game game'" and "visible_sound k game"
  shows "visible_sound k game' \<and> keeps_shown k (visible game) (visible game')"
  using assms
proof (induction rule: rtranclp_induct)
  case base
  then show ?case by (simp add: keeps_shown_refl)
next
  case (step y z)
  from step.IH[OF step.prems] have sy: "visible_sound k y"
    and ky: "keeps_shown k (visible game) (visible y)" by simp_all
  from step_sound[OF step.hyps(2) sy] keeps_shown_trans[OF ky] show ?case by blast
qed

text \<open>
  C7. Take a session that a sequence of digs and flags has made from a fresh one, of a
  size that fits an \<^verbatim>\<open>int\<close>. A cell of its visible board that is neither unknown nor
  flagged (it shows clear, a count or a mine) has the same value after any further
  sequence of digs and flags, at any coordinates; the visible board keeps its length.
\<close>

theorem shown_cells_stay:
  assumes "0 \<le> rows'" and "0 \<le> columns'" and "rows' * columns' \<le> INT_MAX"
    and "(play_step k)\<^sup>*\<^sup>* (smb_mine_create k rows' columns' mines') game"
    and "(play_step k)\<^sup>*\<^sup>* game game'"
    and "i < length (visible game)"
    and "visible game ! i \<noteq> MSW_UNKNOWN k" and "visible game ! i \<noteq> MSW_FLAG k"
  shows "length (visible game') = length (visible game) \<and> visible game' ! i = visible game ! i"
proof -
  from steps_sound[OF assms(4) create_sound] have "visible_sound k game" by simp
  from steps_sound[OF assms(5) this] assms(6,7,8) show ?thesis
    by (simp add: keeps_shown_def)
qed

theorem shown_cells_stay_witness:
  "(0::int) \<le> 1 \<and> (0::int) \<le> 3 \<and> (1::int) * 3 \<le> INT_MAX \<and>
   (play_step ascii_codes)\<^sup>*\<^sup>* (smb_mine_create ascii_codes 1 3 1)
     \<lparr>rows = 1, columns = 3, mines = 1, grid = Some [0x2A, 0x31, 0x30],
      visible = [0x3F, 0x31, 0x30]\<rparr> \<and>
   (play_step ascii_codes)\<^sup>*\<^sup>*
     \<lparr>rows = 1, columns = 3, mines = 1, grid = Some [0x2A, 0x31, 0x30],
      visible = [0x3F, 0x31, 0x30]\<rparr>
     \<lparr>rows = 1, columns = 3, mines = 1, grid = Some [0x2A, 0x31, 0x30],
      visible = [0x2A, 0x31, 0x30]\<rparr> \<and>
   [0x3F, 0x31, 0x30 :: cell] ! 1 \<noteq> MSW_UNKNOWN ascii_codes \<and>
   [0x3F, 0x31, 0x30 :: cell] ! 1 \<noteq> MSW_FLAG ascii_codes \<and>
   [0x2A, 0x31, 0x30 :: cell] ! 1 = [0x3F, 0x31, 0x30 :: cell] ! 1"
proof -
  let ?g = "[0x2A, 0x31, 0x30 :: cell]"
  let ?G0 = "smb_mine_create ascii_codes 1 3 1"
  let ?G1 = "\<lparr>rows = 1, columns = 3, mines = 1, grid = Some ?g, visible = [0x3F, 0x31, 0x30 :: cell]\<rparr>"
  let ?G2 = "\<lparr>rows = 1, columns = 3, mines = 1, grid = Some ?g, visible = [0x46, 0x31, 0x30 :: cell]\<rparr>"
  let ?G3 = "\<lparr>rows = 1, columns = 3, mines = 1, grid = Some ?g, visible = [0x2A, 0x31, 0x30 :: cell]\<rparr>"
  have size: "(0::int) \<le> 1" "(0::int) \<le> 3" "(1::int) * 3 \<le> INT_MAX"
    by (simp_all add: INT_MAX_def)
  have "msw_dig ascii_codes ?G0 0 2 [0] = Inr (?G1, 1, [])" by code_simp
  then have "play_step ascii_codes ?G0 ?G1" by (rule play_step.dig)
  then have s1: "(play_step ascii_codes)\<^sup>*\<^sup>* ?G0 ?G1" by (rule r_into_rtranclp)
  have "msw_flag ascii_codes ?G1 0 0 = Inr (?G2, 1)" by code_simp
  then have f: "play_step ascii_codes ?G1 ?G2" by (rule play_step.flag)
  have "msw_dig ascii_codes ?G2 0 0 [] = Inr (?G3, - 1, [])" by code_simp
  then have "play_step ascii_codes ?G2 ?G3" by (rule play_step.dig)
  with f have s2: "(play_step ascii_codes)\<^sup>*\<^sup>* ?G1 ?G3" by (simp add: converse_rtranclp_into_rtranclp)
  have i: "1 < length (visible ?G1)" by simp
  have u: "visible ?G1 ! 1 \<noteq> MSW_UNKNOWN ascii_codes" by code_simp
  have fl: "visible ?G1 ! 1 \<noteq> MSW_FLAG ascii_codes" by code_simp
  from shown_cells_stay[OF size s1 s2 i u fl] size s1 s2 u fl show ?thesis by simp
qed

section \<open>Flood fill on sessions in play\<close>

lemma same_size:
  assumes "rows a = rows b" and "columns a = columns b"
  shows "msw_in_bounds a = msw_in_bounds b" and "msw_index a = msw_index b"
    and "cell_at a = cell_at b" and "nbrs_settled k a = nbrs_settled k b"
    and "counts_consistent k a = counts_consistent k b"
proof -
  show b: "msw_in_bounds a = msw_in_bounds b"
    using assms by (intro ext) (simp add: msw_in_bounds_def)
  show i: "msw_index a = msw_index b"
    using assms by (intro ext) (simp add: msw_index_def)
  show c: "cell_at a = cell_at b"
    by (intro ext) (simp add: cell_at_def i)
  show "nbrs_settled k a = nbrs_settled k b"
    by (intro ext) (simp add: nbrs_settled_def b i c)
  have "mine_neighbors k a = mine_neighbors k b"
    by (intro ext) (simp add: mine_neighbors_def b i)
  then show "counts_consistent k a = counts_consistent k b"
    using assms by (intro ext) (simp add: counts_consistent_def i)
qed

text \<open>
  Every clear cell that the visible board shows clear has its neighbours settled: the
  flood fill that opened it has been through them.
\<close>

definition closed_view :: "codes \<Rightarrow> smb_mine \<Rightarrow> cell list \<Rightarrow> bool" where
  "closed_view k game g \<longleftrightarrow>
     (\<forall>r c. msw_in_bounds game r c \<longrightarrow> cell_at game g r c = MSW_CLEAR k \<longrightarrow>
        cell_at game (visible game) r c = MSW_CLEAR k \<longrightarrow>
        nbrs_settled k game g (visible game) r c)"

text \<open>
  What holds of every session in play: the visible board has one cell per cell of the
  board and shows nothing but unknown, flag and true values; the true grid, once it
  exists, has the same size, counts consistent with its mines, and the visible board is
  closed in the sense above.
\<close>

definition playable :: "codes \<Rightarrow> smb_mine \<Rightarrow> bool" where
  "playable k game \<longleftrightarrow>
     length (visible game) = nat (rows game * columns game) \<and> visible_sound k game \<and>
     (\<forall>g. grid game = Some g \<longrightarrow>
        length g = nat (rows game * columns game) \<and> counts_consistent k game g \<and>
        closed_view k game g)"

lemma create_playable:
  assumes "0 \<le> rows'" and "0 \<le> columns'" and "rows' * columns' \<le> INT_MAX"
  shows "playable k (smb_mine_create k rows' columns' mines')"
proof -
  have "length (visible (smb_mine_create k rows' columns' mines')) = nat (rows' * columns')"
    using assms
    by (simp add: smb_mine_create_def smb_mine_init_def smb_new_def unknown_cells_all c_mul_fits)
  moreover have "rows (smb_mine_create k rows' columns' mines') = rows'"
    "columns (smb_mine_create k rows' columns' mines') = columns'"
    "grid (smb_mine_create k rows' columns' mines') = None"
    by (simp_all add: smb_mine_create_def smb_mine_init_def)
  ultimately show ?thesis
    using create_sound[of k rows' columns' mines'] by (simp add: playable_def)
qed

lemma generated_playable:
  assumes p: "playable k game" and n: "grid game = None" and b: "msw_in_bounds game r c"
    and i: "msw_initial_grid k game r c rs = Inr (game1, rs1)"
    and fit: "counts_fit k"
    and cu: "MSW_CLEAR k \<noteq> MSW_UNKNOWN k" and cf: "MSW_CLEAR k \<noteq> MSW_FLAG k"
  shows "playable k game1"
proof -
  from initial_grid_generated[OF i] obtain g g1 rs' where
    g1: "game1 = game\<lparr>grid := Some g\<rparr>"
    and gen: "msw_generate_grid k game g1 rs' = Inr (g, rs1)"
    by blast
  from b have pos: "0 \<le> rows game" "0 < columns game"
    by (auto simp: msw_in_bounds_def)
  from generate_counted[OF gen fit pos] have lg: "length g = nat (rows game * columns game)"
    by (auto simp: counted_def)
  from g1 have dims: "rows game1 = rows game" "columns game1 = columns game"
    and v1: "visible game1 = visible game" and gg: "grid game1 = Some g"
    by simp_all
  from p have lv: "length (visible game) = nat (rows game * columns game)"
    and s: "visible_sound k game"
    by (simp_all add: playable_def)
  have hidden: "visible game ! x = MSW_UNKNOWN k \<or> visible game ! x = MSW_FLAG k"
    if "x < length (visible game)" for x
    using s n that unfolding visible_sound_def by auto
  have s1: "visible_sound k game1"
    unfolding visible_sound_def using hidden v1 by auto
  have cc: "counts_consistent k game1 g"
    using generated_consistent[OF gen fit] same_size(5)[OF dims] by simp
  have cv: "closed_view k game1 g"
    unfolding closed_view_def
  proof (intro allI impI)
    fix r c assume "msw_in_bounds game1 r c"
      and sh: "cell_at game1 (visible game1) r c = MSW_CLEAR k"
    then have "msw_in_bounds game r c"
      using same_size(1)[OF dims] by simp
    from hidden[OF index_nat_less[OF this lv]] sh cu cf v1 same_size(3)[OF dims]
    have False by (auto simp: cell_at_def)
    then show "nbrs_settled k game1 g (visible game1) r c" ..
  qed
  from lv lg dims v1 gg s1 cc cv show ?thesis
    by (simp add: playable_def)
qed

lemma dig_started_playable:
  assumes p: "playable k game" and g: "grid game = Some g"
    and d: "msw_dig k game row column rs = Inr (game', st, rs')"
  shows "playable k game'"
proof -
  from p g have lv: "length (visible game) = nat (rows game * columns game)"
    and s: "visible_sound k game"
    and lg: "length g = nat (rows game * columns game)"
    and cc: "counts_consistent k game g" and cv: "closed_view k game g"
    by (simp_all add: playable_def)
  from dig_frame(1)[OF d g] have f: "game' = game\<lparr>visible := visible game'\<rparr>"
    and r: "reveals k g (visible game) (visible game')"
    by simp_all
  from frame_grid[OF f] g have g': "grid game' = Some g"
    and dims: "rows game' = rows game" "columns game' = columns game"
    by simp_all
  from r have l: "length (visible game') = length (visible game)"
    by (simp add: reveals_def)
  have lvg: "length (visible game) = length g" using lv lg by simp
  have "game\<lparr>visible := visible game\<rparr> = game" by simp
  with d have "msw_dig k (game\<lparr>visible := visible game\<rparr>) row column rs = Inr (game', st, rs')"
    by simp
  from dig_closes(1)[OF g lg lvg this]
  have fc: "fresh_closed k game g (visible game) (visible game')" .
  have cv': "closed_view k game' g"
    unfolding closed_view_def same_size(1,3,4)[OF dims]
  proof (intro allI impI)
    fix r c assume b: "msw_in_bounds game r c" and cl: "cell_at game g r c = MSW_CLEAR k"
      and sh: "cell_at game (visible game') r c = MSW_CLEAR k"
    show "nbrs_settled k game g (visible game') r c"
    proof (cases "cell_at game (visible game) r c = MSW_CLEAR k")
      case True
      with cv b cl have "nbrs_settled k game g (visible game) r c"
        by (simp add: closed_view_def)
      from this r lv show ?thesis by (rule nbrs_settled_stable)
    next
      case False
      with fc b cl sh show ?thesis by (simp add: fresh_closed_def)
    qed
  qed
  from dig_started_sound(1)[OF g s d] have "visible_sound k game'" .
  with l lv lg g' dims cc cv' same_size(5)[OF dims, of k] show ?thesis
    by (simp add: playable_def)
qed

lemma dig_playable:
  assumes p: "playable k game"
    and d: "msw_dig k game row column rs = Inr (game', st, rs')"
    and fit: "counts_fit k"
    and cu: "MSW_CLEAR k \<noteq> MSW_UNKNOWN k" and cf: "MSW_CLEAR k \<noteq> MSW_FLAG k"
  shows "playable k game'"
proof (cases "grid game")
  case (Some g)
  from dig_started_playable[OF p Some d] show ?thesis .
next
  case None
  show ?thesis
  proof (cases "msw_in_bounds game row column")
    case False
    then have "msw_dig k game row column rs = Inr (game, 0, rs)"
      by (subst msw_dig.simps) simp
    with d p show ?thesis by simp
  next
    case True
    with None d obtain game1 rs1 where
      i: "msw_initial_grid k game row column rs = Inr (game1, rs1)"
      and d1: "msw_dig k game1 row column rs1 = Inr (game', st, rs')"
      by (auto simp: dig_first split: sum.splits)
    from generated_playable[OF p None True i fit cu cf] have p1: "playable k game1" .
    from i obtain g where "grid game1 = Some g"
      using initial_grid_result by fastforce
    from dig_started_playable[OF p1 this d1] show ?thesis .
  qed
qed

lemma settled_flagged:
  assumes "settled k g v y" and "v ! x = MSW_UNKNOWN k" and "x < length v"
    and "MSW_CLEAR k \<noteq> MSW_UNKNOWN k"
  shows "settled k g (v[x := MSW_FLAG k]) y"
proof (cases "y = x")
  case True
  with assms show ?thesis by (auto simp: settled_def)
next
  case False
  with assms(1) show ?thesis by (simp add: settled_def)
qed

lemma flag_playable:
  assumes p: "playable k game" and f: "msw_flag k game r c = Inr (game', st)"
    and cu: "MSW_CLEAR k \<noteq> MSW_UNKNOWN k" and cf: "MSW_CLEAR k \<noteq> MSW_FLAG k"
  shows "playable k game'"
proof (cases "visible game ! nat (msw_index game r c) = MSW_UNKNOWN k")
  case False
  with f have "game' = game"
    by (auto simp: msw_flag_def split: if_splits)
  with p show ?thesis by simp
next
  case True
  let ?x = "nat (msw_index game r c)"
  let ?v = "visible game"
  from True f have g': "game' = game\<lparr>visible := ?v[?x := MSW_FLAG k]\<rparr>"
    and x: "?x < length ?v"
    by (auto simp: msw_flag_def in_array_def split: if_splits)
  from g' have dims: "rows game' = rows game" "columns game' = columns game"
    and gr: "grid game' = grid game" and v': "visible game' = ?v[?x := MSW_FLAG k]"
    by simp_all
  from p have lv: "length ?v = nat (rows game * columns game)"
    and s: "visible_sound k game"
    by (simp_all add: playable_def)
  from flag_sound[OF s f] have s': "visible_sound k game'" by simp
  have rest: "length g = nat (rows game * columns game) \<and> counts_consistent k game' g \<and>
      closed_view k game' g" if g: "grid game = Some g" for g
  proof -
    from p g have lg: "length g = nat (rows game * columns game)"
      and cc: "counts_consistent k game g" and cv: "closed_view k game g"
      by (simp_all add: playable_def)
    have "closed_view k game' g"
      unfolding closed_view_def same_size(1,3,4)[OF dims] v'
    proof (intro allI impI)
      fix i j assume b: "msw_in_bounds game i j" and cl: "cell_at game g i j = MSW_CLEAR k"
        and sh: "cell_at game (?v[?x := MSW_FLAG k]) i j = MSW_CLEAR k"
      have "nat (msw_index game i j) \<noteq> ?x"
      proof
        assume "nat (msw_index game i j) = ?x"
        with sh x cf show False by (simp add: cell_at_def)
      qed
      with sh have "cell_at game ?v i j = MSW_CLEAR k"
        by (simp add: cell_at_def)
      with cv b cl have n: "nbrs_settled k game g ?v i j"
        by (simp add: closed_view_def)
      show "nbrs_settled k game g (?v[?x := MSW_FLAG k]) i j"
        unfolding nbrs_settled_def
      proof (intro allI impI)
        fix a b assume "adjacent i j a b" and "msw_in_bounds game a b"
        with n have "cell_at game g a b = MSW_MINE k \<or> settled k g ?v (nat (msw_index game a b))"
          by (simp add: nbrs_settled_def)
        then show "cell_at game g a b = MSW_MINE k \<or>
            settled k g (?v[?x := MSW_FLAG k]) (nat (msw_index game a b))"
          using settled_flagged[OF _ True x cu] by blast
      qed
    qed
    with lg cc same_size(5)[OF dims, of k] show ?thesis by simp
  qed
  from lv s' rest dims gr v' show ?thesis
    by (simp add: playable_def)
qed

lemma steps_playable:
  assumes "(play_step k)\<^sup>*\<^sup>* game game'" and "playable k game"
    and fit: "counts_fit k"
    and cu: "MSW_CLEAR k \<noteq> MSW_UNKNOWN k" and cf: "MSW_CLEAR k \<noteq> MSW_FLAG k"
  shows "playable k game'"
  using assms(1,2)
proof (induction rule: rtranclp_induct)
  case base
  then show ?case .
next
  case (step y z)
  from step.IH[OF step.prems] have py: "playable k y" .
  from step.hyps(2) show ?case
  proof (cases rule: play_step.cases)
    case (dig row column rs st rs')
    from dig_playable[OF py dig fit cu cf] show ?thesis .
  next
    case (flag r c st)
    from flag_playable[OF py flag cu cf] show ?thesis .
  qed
qed

lemma shown_region:
  assumes cv: "closed_view k game g" and ne: "MSW_CLEAR k \<noteq> MSW_MINE k"
    and sh: "cell_at game (visible game) r c = MSW_CLEAR k"
  shows "(i, j) \<in> region k game g r c \<Longrightarrow> cell_at game (visible game) i j = MSW_CLEAR k"
proof (induction rule: region.induct)
  case start
  from sh show ?case .
next
  case (step i j i' j')
  from region_clear[OF step.hyps(1)] step.IH cv
  have "nbrs_settled k game g (visible game) i j"
    by (simp add: closed_view_def)
  with step.hyps(2,3) have
    "cell_at game g i' j' = MSW_MINE k \<or> settled k g (visible game) (nat (msw_index game i' j'))"
    by (simp add: nbrs_settled_def)
  with step.hyps(4) ne show ?case
    by (auto simp: settled_def cell_at_def)
qed

lemma border_count:
  assumes cc: "counts_consistent k game g" and ne: "MSW_CLEAR k \<noteq> MSW_MINE k"
    and m: "(i, j) \<in> closure k game g r c" and nr: "(i, j) \<notin> region k game g r c"
  shows "cell_at game g i j \<noteq> MSW_MINE k"
    and "cell_at game g i j = MSW_CLEAR k + of_nat (mine_neighbors k game g i j)"
    and "0 < mine_neighbors k game g i j"
proof -
  from m nr obtain a b where ab: "(a, b) \<in> region k game g r c" "adjacent a b i j"
    and bd: "msw_in_bounds game i j"
    unfolding closure_def by blast
  from region_clear[OF ab(1)] have "msw_in_bounds game a b" "cell_at game g a b = MSW_CLEAR k"
    by simp_all
  from clear_no_mine_neighbor[OF cc ne this ab(2) bd]
  show nm: "cell_at game g i j \<noteq> MSW_MINE k" .
  from bd have "i \<in> {0..<rows game}" "j \<in> {0..<columns game}"
    by (simp_all add: msw_in_bounds_def)
  with cc nm show v: "cell_at game g i j = MSW_CLEAR k + of_nat (mine_neighbors k game g i j)"
    unfolding counts_consistent_def cell_at_def by blast
  show "0 < mine_neighbors k game g i j"
  proof (rule ccontr)
    assume "\<not> 0 < mine_neighbors k game g i j"
    with v have "cell_at game g i j = MSW_CLEAR k" by simp
    with border_not_clear[OF m nr] show False ..
  qed
qed

lemma flood_playable:
  assumes p: "playable k game" and g: "grid game = Some g"
    and b: "msw_in_bounds game r c" and cl: "cell_at game g r c = MSW_CLEAR k"
    and ne: "MSW_CLEAR k \<noteq> MSW_MINE k"
  obtains v' where
    "msw_dig k game r c rs = Inr (game\<lparr>visible := v'\<rparr>, 1, rs)"
    and "length v' = length (visible game)"
    and "\<And>i j. (i, j) \<in> region k game g r c \<Longrightarrow> cell_at game v' i j = MSW_CLEAR k"
    and "\<And>i j. (i, j) \<in> closure k game g r c \<Longrightarrow> (i, j) \<notin> region k game g r c \<Longrightarrow>
           cell_at game v' i j = (if cell_at game (visible game) i j = MSW_FLAG k then MSW_FLAG k
                                  else cell_at game g i j)"
    and "\<And>i j. msw_in_bounds game i j \<Longrightarrow> (i, j) \<notin> closure k game g r c \<Longrightarrow>
           cell_at game v' i j = cell_at game (visible game) i j"
    and "cell_at game (visible game) r c = MSW_CLEAR k \<Longrightarrow> v' = visible game"
proof -
  let ?v = "visible game"
  let ?x = "nat (msw_index game r c)"
  from p g have lv: "length ?v = nat (rows game * columns game)"
    and lg: "length g = nat (rows game * columns game)"
    and cc: "counts_consistent k game g" and cv: "closed_view k game g"
    by (simp_all add: playable_def)
  have self: "game\<lparr>visible := ?v\<rparr> = game" by simp
  show thesis
  proof (cases "cell_at game ?v r c = MSW_CLEAR k")
    case True
    have "?v ! ?x = g ! ?x"
      using True cl by (simp add: cell_at_def)
    then have same: "?v[?x := g ! ?x] = ?v"
      by (metis list_update_id)
    have "\<not> (g ! ?x = MSW_CLEAR k \<and> ?v ! ?x \<noteq> MSW_CLEAR k)"
      using True by (simp add: cell_at_def)
    from dig_shut[OF g b in_array_index[OF b lg] in_array_index[OF b lv] this, of rs]
    have d: "msw_dig k game r c rs = Inr (game\<lparr>visible := ?v\<rparr>, 1, rs)"
      using cl ne same by (simp add: cell_at_def)
    show thesis
    proof (rule that[of ?v])
      show "msw_dig k game r c rs = Inr (game\<lparr>visible := ?v\<rparr>, 1, rs)" by (rule d)
      show "length ?v = length ?v" ..
      show "cell_at game ?v i j = MSW_CLEAR k" if "(i, j) \<in> region k game g r c" for i j
        using shown_region[OF cv ne True that] .
      show "cell_at game ?v i j = (if cell_at game ?v i j = MSW_FLAG k then MSW_FLAG k
                                   else cell_at game g i j)"
        if m: "(i, j) \<in> closure k game g r c" and nr: "(i, j) \<notin> region k game g r c" for i j
      proof -
        from m nr obtain a b where ab: "(a, b) \<in> region k game g r c" "adjacent a b i j"
          and bd: "msw_in_bounds game i j"
          unfolding closure_def by blast
        from region_clear[OF ab(1)] shown_region[OF cv ne True ab(1)] cv
        have "nbrs_settled k game g ?v a b"
          by (simp add: closed_view_def)
        with ab(2) bd border_count(1)[OF cc ne m nr]
        have "settled k g ?v (nat (msw_index game i j))"
          unfolding nbrs_settled_def by blast
        then show ?thesis
          by (auto simp: settled_def cell_at_def)
      qed
      show "cell_at game ?v i j = cell_at game ?v i j" for i j ..
      show "?v = ?v" ..
    qed
  next
    case False
    have H: "cell_at game ?v i j \<noteq> MSW_CLEAR k" if m: "(i, j) \<in> region k game g r c" for i j
    proof
      assume sh: "cell_at game ?v i j = MSW_CLEAR k"
      from shown_region[OF cv ne sh region_sym[OF m]] False show False by simp
    qed
    have lvg: "length ?v = length g" using lv lg by simp
    from flood_general[OF g lg lvg b cl ne H, of rs] obtain v' where
      d: "msw_dig k (game\<lparr>visible := ?v\<rparr>) r c rs = Inr (game\<lparr>visible := v'\<rparr>, 1, rs)"
      and l: "length v' = length ?v"
      and reg: "\<And>i j. (i, j) \<in> region k game g r c \<Longrightarrow> cell_at game v' i j = MSW_CLEAR k"
      and bor: "\<And>i j. (i, j) \<in> closure k game g r c \<Longrightarrow> (i, j) \<notin> region k game g r c \<Longrightarrow>
           cell_at game g i j \<noteq> MSW_MINE k \<Longrightarrow>
           cell_at game v' i j = (if cell_at game ?v i j = MSW_FLAG k then MSW_FLAG k
                                  else cell_at game g i j)"
      and out: "\<And>i j. msw_in_bounds game i j \<Longrightarrow> (i, j) \<notin> closure k game g r c \<Longrightarrow>
           cell_at game v' i j = cell_at game ?v i j"
      by blast
    show thesis
    proof (rule that[of v'])
      show "msw_dig k game r c rs = Inr (game\<lparr>visible := v'\<rparr>, 1, rs)"
        using d unfolding self .
      show "length v' = length ?v" by (rule l)
      show "cell_at game v' i j = MSW_CLEAR k" if "(i, j) \<in> region k game g r c" for i j
        using reg[OF that] .
      show "cell_at game v' i j = (if cell_at game ?v i j = MSW_FLAG k then MSW_FLAG k
                                   else cell_at game g i j)"
        if m: "(i, j) \<in> closure k game g r c" and nr: "(i, j) \<notin> region k game g r c" for i j
        using bor[OF m nr border_count(1)[OF cc ne m nr]] .
      show "cell_at game v' i j = cell_at game ?v i j"
        if "msw_in_bounds game i j" and "(i, j) \<notin> closure k game g r c" for i j
        using out[OF that] .
      show "v' = ?v" if "cell_at game ?v r c = MSW_CLEAR k"
        using that False by simp
    qed
  qed
qed

text \<open>
  Lines 231 to 234 of \<^verbatim>\<open>msw_dig\<close>: the session on which the dig proper runs, and the
  random numbers left. The true grid is generated if the game has not started; a started
  game is taken as it is.
\<close>

definition start_grid ::
    "codes \<Rightarrow> smb_mine \<Rightarrow> int \<Rightarrow> int \<Rightarrow> nat list \<Rightarrow> abort + (smb_mine \<times> nat list)" where
  "start_grid k game row column rs =
     (case grid game of
        None \<Rightarrow> msw_initial_grid k game row column rs
      | Some g \<Rightarrow> Inr (game, rs))"

lemma dig_from_start:
  assumes b: "msw_in_bounds game0 r c" and s: "start_grid k game0 r c rs = Inr (game, rs1)"
  shows "msw_dig k game0 r c rs = msw_dig k game r c rs1"
    and "visible game = visible game0" and "msw_in_bounds game r c"
proof -
  have "msw_dig k game0 r c rs = msw_dig k game r c rs1 \<and> visible game = visible game0 \<and>
      msw_in_bounds game r c"
  proof (cases "grid game0")
    case None
    with s have i: "msw_initial_grid k game0 r c rs = Inr (game, rs1)"
      by (simp add: start_grid_def)
    then obtain g where "game = game0\<lparr>grid := Some g\<rparr>"
      using initial_grid_result by blast
    with b have "visible game = visible game0" "msw_in_bounds game r c"
      by (simp_all add: msw_in_bounds_def)
    with dig_first[OF None b, of k rs] i show ?thesis by simp
  next
    case (Some g)
    with s b show ?thesis by (simp add: start_grid_def)
  qed
  then show "msw_dig k game0 r c rs = msw_dig k game r c rs1"
    and "visible game = visible game0" and "msw_in_bounds game r c"
    by simp_all
qed

lemma start_playable:
  assumes p: "playable k game0" and b: "msw_in_bounds game0 r c"
    and s: "start_grid k game0 r c rs = Inr (game, rs1)"
    and fit: "counts_fit k"
    and cu: "MSW_CLEAR k \<noteq> MSW_UNKNOWN k" and cf: "MSW_CLEAR k \<noteq> MSW_FLAG k"
  shows "playable k game"
proof (cases "grid game0")
  case None
  with s have "msw_initial_grid k game0 r c rs = Inr (game, rs1)"
    by (simp add: start_grid_def)
  from generated_playable[OF p None b this fit cu cf] show ?thesis .
next
  case (Some g)
  with s p show ?thesis by (simp add: start_grid_def)
qed

text \<open>
  C4, amended. Take a session in play: one that digs and flags have made from a fresh
  session of a size that fits an \<^verbatim>\<open>int\<close>, with the codes of the header such that clear
  is neither unknown nor flag and mine is none of the counts. Dig at an in-bounds cell
  \<open>(r, c)\<close> that is clear in the true grid, generated by this very dig if the game had not
  started. The dig returns 1 and draws no random number beyond the generation; after it

   \<^item> every cell of the region of \<open>(r, c)\<close> shows clear, a flag on it being overwritten;
   \<^item> every other cell of the closure is a count of at least one and no mine, and shows
     its count unless it was flagged, in which case it is still flagged;
   \<^item> every cell outside the closure shows what it showed;
   \<^item> nothing at all has changed if \<open>(r, c)\<close> showed clear before.
\<close>

theorem dig_clear_floods:
  assumes "0 \<le> rows'" and "0 \<le> columns'" and "rows' * columns' \<le> INT_MAX"
    and "counts_fit k" and "MSW_CLEAR k \<noteq> MSW_UNKNOWN k" and "MSW_CLEAR k \<noteq> MSW_FLAG k"
    and "(play_step k)\<^sup>*\<^sup>* (smb_mine_create k rows' columns' mines') game0"
    and "msw_in_bounds game0 r c"
    and "start_grid k game0 r c rs = Inr (game, rs1)"
    and "grid game = Some g" and "cell_at game g r c = MSW_CLEAR k"
  shows "\<exists>v'. msw_dig k game0 r c rs = Inr (game\<lparr>visible := v'\<rparr>, 1, rs1) \<and>
     length v' = length (visible game) \<and>
     (\<forall>(i, j) \<in> region k game g r c. cell_at game v' i j = MSW_CLEAR k) \<and>
     (\<forall>(i, j) \<in> closure k game g r c - region k game g r c.
        cell_at game g i j = MSW_CLEAR k + of_nat (mine_neighbors k game g i j) \<and>
        0 < mine_neighbors k game g i j \<and> cell_at game g i j \<noteq> MSW_MINE k \<and>
        cell_at game v' i j =
          (if cell_at game (visible game) i j = MSW_FLAG k then MSW_FLAG k
           else cell_at game g i j)) \<and>
     (\<forall>i j. msw_in_bounds game i j \<and> (i, j) \<notin> closure k game g r c \<longrightarrow>
        cell_at game v' i j = cell_at game (visible game) i j) \<and>
     (cell_at game (visible game) r c = MSW_CLEAR k \<longrightarrow> v' = visible game)"
proof -
  from assms(4) have ne: "MSW_CLEAR k \<noteq> MSW_MINE k" by (rule counts_fit_clear)
  from steps_playable[OF assms(7) create_playable[OF assms(1,2,3)] assms(4,5,6)]
  have "playable k game0" .
  from start_playable[OF this assms(8,9,4,5,6)] have p: "playable k game" .
  from p assms(10) have cc: "counts_consistent k game g"
    by (simp add: playable_def)
  note s = dig_from_start[OF assms(8,9)]
  from flood_playable[OF p assms(10) s(3) assms(11) ne, of rs1] obtain v' where
    d: "msw_dig k game r c rs1 = Inr (game\<lparr>visible := v'\<rparr>, 1, rs1)"
    and l: "length v' = length (visible game)"
    and reg: "\<And>i j. (i, j) \<in> region k game g r c \<Longrightarrow> cell_at game v' i j = MSW_CLEAR k"
    and bor: "\<And>i j. (i, j) \<in> closure k game g r c \<Longrightarrow> (i, j) \<notin> region k game g r c \<Longrightarrow>
           cell_at game v' i j = (if cell_at game (visible game) i j = MSW_FLAG k then MSW_FLAG k
                                  else cell_at game g i j)"
    and out: "\<And>i j. msw_in_bounds game i j \<Longrightarrow> (i, j) \<notin> closure k game g r c \<Longrightarrow>
           cell_at game v' i j = cell_at game (visible game) i j"
    and same: "cell_at game (visible game) r c = MSW_CLEAR k \<Longrightarrow> v' = visible game"
    by blast
  have 1: "msw_dig k game0 r c rs = Inr (game\<lparr>visible := v'\<rparr>, 1, rs1)"
    using d s(1) by simp
  have 2: "\<forall>(i, j) \<in> region k game g r c. cell_at game v' i j = MSW_CLEAR k"
    using reg by blast
  have 3: "\<forall>(i, j) \<in> closure k game g r c - region k game g r c.
        cell_at game g i j = MSW_CLEAR k + of_nat (mine_neighbors k game g i j) \<and>
        0 < mine_neighbors k game g i j \<and> cell_at game g i j \<noteq> MSW_MINE k \<and>
        cell_at game v' i j =
          (if cell_at game (visible game) i j = MSW_FLAG k then MSW_FLAG k
           else cell_at game g i j)"
  proof (intro ballI, clarify)
    fix i j assume m: "(i, j) \<in> closure k game g r c" and nr: "(i, j) \<notin> region k game g r c"
    from border_count[OF cc ne m nr] bor[OF m nr]
    show "cell_at game g i j = MSW_CLEAR k + of_nat (mine_neighbors k game g i j) \<and>
        0 < mine_neighbors k game g i j \<and> cell_at game g i j \<noteq> MSW_MINE k \<and>
        cell_at game v' i j =
          (if cell_at game (visible game) i j = MSW_FLAG k then MSW_FLAG k
           else cell_at game g i j)"
      by simp
  qed
  have 4: "\<forall>i j. msw_in_bounds game i j \<and> (i, j) \<notin> closure k game g r c \<longrightarrow>
        cell_at game v' i j = cell_at game (visible game) i j"
    using out by blast
  from 1 l 2 3 4 same show ?thesis by blast
qed

theorem dig_clear_floods_witness:
  "(0::int) \<le> 1 \<and> (0::int) \<le> 5 \<and> (1::int) * 5 \<le> INT_MAX \<and>
   counts_fit ascii_codes \<and>
   MSW_CLEAR ascii_codes \<noteq> MSW_UNKNOWN ascii_codes \<and>
   MSW_CLEAR ascii_codes \<noteq> MSW_FLAG ascii_codes \<and>
   (play_step ascii_codes)\<^sup>*\<^sup>* (smb_mine_create ascii_codes 1 5 1)
     (smb_mine_create ascii_codes 1 5 1) \<and>
   msw_in_bounds (smb_mine_create ascii_codes 1 5 1) 0 0 \<and>
   start_grid ascii_codes (smb_mine_create ascii_codes 1 5 1) 0 0 [2]
     = Inr (\<lparr>rows = 1, columns = 5, mines = 1, grid = Some [0x30, 0x31, 0x2A, 0x31, 0x30],
             visible = [0x3F, 0x3F, 0x3F, 0x3F, 0x3F]\<rparr>, []) \<and>
   (0, 0) \<in> region ascii_codes
       \<lparr>rows = 1, columns = 5, mines = 1, grid = Some [0x30, 0x31, 0x2A, 0x31, 0x30],
        visible = [0x3F, 0x3F, 0x3F, 0x3F, 0x3F]\<rparr> [0x30, 0x31, 0x2A, 0x31, 0x30] 0 0 \<and>
   (0, 1) \<in> closure ascii_codes
       \<lparr>rows = 1, columns = 5, mines = 1, grid = Some [0x30, 0x31, 0x2A, 0x31, 0x30],
        visible = [0x3F, 0x3F, 0x3F, 0x3F, 0x3F]\<rparr> [0x30, 0x31, 0x2A, 0x31, 0x30] 0 0
     - region ascii_codes
       \<lparr>rows = 1, columns = 5, mines = 1, grid = Some [0x30, 0x31, 0x2A, 0x31, 0x30],
        visible = [0x3F, 0x3F, 0x3F, 0x3F, 0x3F]\<rparr> [0x30, 0x31, 0x2A, 0x31, 0x30] 0 0 \<and>
   (\<exists>v'. msw_dig ascii_codes (smb_mine_create ascii_codes 1 5 1) 0 0 [2]
           = Inr (\<lparr>rows = 1, columns = 5, mines = 1,
                   grid = Some [0x30, 0x31, 0x2A, 0x31, 0x30], visible = v'\<rparr>, 1, []) \<and>
         v' ! 0 = 0x30 \<and> v' ! 1 = 0x31) \<and>
   msw_dig ascii_codes (smb_mine_create ascii_codes 1 5 1) 0 0 [2]
     = Inr (\<lparr>rows = 1, columns = 5, mines = 1, grid = Some [0x30, 0x31, 0x2A, 0x31, 0x30],
             visible = [0x30, 0x31, 0x3F, 0x3F, 0x3F]\<rparr>, 1, [])"
proof -
  let ?k = ascii_codes
  let ?g = "[0x30, 0x31, 0x2A, 0x31, 0x30 :: cell]"
  let ?F = "smb_mine_create ascii_codes 1 5 1"
  let ?G = "\<lparr>rows = 1, columns = 5, mines = 1, grid = Some ?g,
             visible = [0x3F, 0x3F, 0x3F, 0x3F, 0x3F :: cell]\<rparr>"
  have size: "(0::int) \<le> 1" "(0::int) \<le> 5" "(1::int) * 5 \<le> INT_MAX"
    by (simp_all add: INT_MAX_def)
  have fit: "counts_fit ?k" by code_simp
  have cu: "MSW_CLEAR ?k \<noteq> MSW_UNKNOWN ?k" by code_simp
  have cf: "MSW_CLEAR ?k \<noteq> MSW_FLAG ?k" by code_simp
  have reach: "(play_step ?k)\<^sup>*\<^sup>* ?F ?F" by (rule rtranclp.rtrancl_refl)
  have b0: "msw_in_bounds ?F 0 0" by code_simp
  have st: "start_grid ?k ?F 0 0 [2] = Inr (?G, [])" by code_simp
  have g: "grid ?G = Some ?g" by simp
  have b: "msw_in_bounds ?G 0 0" by code_simp
  have b1: "msw_in_bounds ?G 0 1" by code_simp
  have cl: "cell_at ?G ?g 0 0 = MSW_CLEAR ?k" by code_simp
  have c1: "cell_at ?G ?g 0 1 = 0x31" by code_simp
  have nf: "cell_at ?G (visible ?G) 0 1 \<noteq> MSW_FLAG ?k" by code_simp
  have reg: "(0, 0) \<in> region ?k ?G ?g 0 0"
    using b cl by (rule region.start)
  have "adjacent 0 0 0 1"
    unfolding adjacent_def by (rule exI[of _ 4]) (simp add: NUM_NEIGHBORS_def rnbr_def cnbr_def)
  with reg b1 have "(0, 1) \<in> closure ?k ?G ?g 0 0"
    unfolding closure_def by blast
  moreover have "(0, 1) \<notin> region ?k ?G ?g 0 0"
  proof
    assume "(0, 1) \<in> region ?k ?G ?g 0 0"
    from region_clear[OF this] c1 show False by (simp add: ascii_codes_def)
  qed
  ultimately have bor: "(0, 1) \<in> closure ?k ?G ?g 0 0 - region ?k ?G ?g 0 0" by simp
  have r: "msw_dig ?k ?F 0 0 [2]
      = Inr (\<lparr>rows = 1, columns = 5, mines = 1, grid = Some ?g,
              visible = [0x30, 0x31, 0x3F, 0x3F, 0x3F]\<rparr>, 1, [])"
    by code_simp
  from dig_clear_floods[OF size fit cu cf reach b0 st g cl] obtain v' where
    d: "msw_dig ?k ?F 0 0 [2] = Inr (?G\<lparr>visible := v'\<rparr>, 1, [])"
    and 1: "\<forall>(i, j) \<in> region ?k ?G ?g 0 0. cell_at ?G v' i j = MSW_CLEAR ?k"
    and 2: "\<forall>(i, j) \<in> closure ?k ?G ?g 0 0 - region ?k ?G ?g 0 0.
        cell_at ?G v' i j =
          (if cell_at ?G (visible ?G) i j = MSW_FLAG ?k then MSW_FLAG ?k else cell_at ?G ?g i j)"
    by blast
  from bspec[OF 1 reg] have "cell_at ?G v' 0 0 = MSW_CLEAR ?k" by simp
  then have v0: "v' ! 0 = 0x30"
    by (simp add: cell_at_def msw_index_def ascii_codes_def)
  from bspec[OF 2 bor] have "cell_at ?G v' 0 1 =
      (if cell_at ?G (visible ?G) 0 1 = MSW_FLAG ?k then MSW_FLAG ?k else cell_at ?G ?g 0 1)"
    by simp
  with nf c1 have "cell_at ?G v' 0 1 = 0x31" by simp
  then have v1: "v' ! 1 = 0x31"
    by (simp add: cell_at_def msw_index_def)
  from d v0 v1 have "\<exists>v'. msw_dig ?k ?F 0 0 [2]
      = Inr (\<lparr>rows = 1, columns = 5, mines = 1, grid = Some ?g, visible = v'\<rparr>, 1, []) \<and>
      v' ! 0 = 0x30 \<and> v' ! 1 = 0x31"
    by auto
  with size fit cu cf reach b0 st reg bor r show ?thesis by blast
qed

text \<open>
  C4, as the claim states it: a count cell on the border of the region that carries a
  flag is not revealed. On a board of 1 by 5 cells with one mine, the first dig at
  \<open>(0, 0)\<close> with \<^verbatim>\<open>rand()\<close> returning \<open>2\<close> gives the true grid \<^verbatim>\<open>01*10\<close>; the player
  flags \<open>(0, 3)\<close> and digs at \<open>(0, 4)\<close>, a clear cell whose region is itself and whose
  border is the count at \<open>(0, 3)\<close>: that cell shows the flag after the dig.
\<close>

theorem flagged_border_stays_flagged:
  "msw_dig ascii_codes (smb_mine_create ascii_codes 1 5 1) 0 0 [2]
     = Inr (\<lparr>rows = 1, columns = 5, mines = 1, grid = Some [0x30, 0x31, 0x2A, 0x31, 0x30],
             visible = [0x30, 0x31, 0x3F, 0x3F, 0x3F]\<rparr>, 1, []) \<and>
   msw_flag ascii_codes
     \<lparr>rows = 1, columns = 5, mines = 1, grid = Some [0x30, 0x31, 0x2A, 0x31, 0x30],
      visible = [0x30, 0x31, 0x3F, 0x3F, 0x3F]\<rparr> 0 3
     = Inr (\<lparr>rows = 1, columns = 5, mines = 1, grid = Some [0x30, 0x31, 0x2A, 0x31, 0x30],
             visible = [0x30, 0x31, 0x3F, 0x46, 0x3F]\<rparr>, 1) \<and>
   cell_at \<lparr>rows = 1, columns = 5, mines = 1, grid = Some [0x30, 0x31, 0x2A, 0x31, 0x30],
      visible = [0x30, 0x31, 0x3F, 0x46, 0x3F]\<rparr> [0x30, 0x31, 0x2A, 0x31, 0x30] 0 4
     = MSW_CLEAR ascii_codes \<and>
   (0, 3) \<in> closure ascii_codes
       \<lparr>rows = 1, columns = 5, mines = 1, grid = Some [0x30, 0x31, 0x2A, 0x31, 0x30],
        visible = [0x30, 0x31, 0x3F, 0x46, 0x3F]\<rparr> [0x30, 0x31, 0x2A, 0x31, 0x30] 0 4 \<and>
   cell_at \<lparr>rows = 1, columns = 5, mines = 1, grid = Some [0x30, 0x31, 0x2A, 0x31, 0x30],
      visible = [0x30, 0x31, 0x3F, 0x46, 0x3F]\<rparr> [0x30, 0x31, 0x2A, 0x31, 0x30] 0 3
     = MSW_CLEAR ascii_codes + 1 \<and>
   msw_dig ascii_codes
     \<lparr>rows = 1, columns = 5, mines = 1, grid = Some [0x30, 0x31, 0x2A, 0x31, 0x30],
      visible = [0x30, 0x31, 0x3F, 0x46, 0x3F]\<rparr> 0 4 []
     = Inr (\<lparr>rows = 1, columns = 5, mines = 1, grid = Some [0x30, 0x31, 0x2A, 0x31, 0x30],
             visible = [0x30, 0x31, 0x3F, 0x46, 0x30]\<rparr>, 1, []) \<and>
   cell_at \<lparr>rows = 1, columns = 5, mines = 1, grid = Some [0x30, 0x31, 0x2A, 0x31, 0x30],
      visible = [0x30, 0x31, 0x3F, 0x46, 0x3F]\<rparr> [0x30, 0x31, 0x3F, 0x46, 0x30] 0 3
     = MSW_FLAG ascii_codes"
proof -
  let ?k = ascii_codes
  let ?g = "[0x30, 0x31, 0x2A, 0x31, 0x30 :: cell]"
  let ?G = "\<lparr>rows = 1, columns = 5, mines = 1, grid = Some ?g,
             visible = [0x30, 0x31, 0x3F, 0x46, 0x3F :: cell]\<rparr>"
  have 1: "msw_dig ?k (smb_mine_create ?k 1 5 1) 0 0 [2]
     = Inr (\<lparr>rows = 1, columns = 5, mines = 1, grid = Some ?g,
             visible = [0x30, 0x31, 0x3F, 0x3F, 0x3F]\<rparr>, 1, [])"
    by code_simp
  have 2: "msw_flag ?k \<lparr>rows = 1, columns = 5, mines = 1, grid = Some ?g,
      visible = [0x30, 0x31, 0x3F, 0x3F, 0x3F]\<rparr> 0 3 = Inr (?G, 1)"
    by code_simp
  have b4: "msw_in_bounds ?G 0 4" and b3: "msw_in_bounds ?G 0 3" by code_simp+
  have 3: "cell_at ?G ?g 0 4 = MSW_CLEAR ?k" by code_simp
  from b4 3 have reg: "(0, 4) \<in> region ?k ?G ?g 0 4" by (rule region.start)
  have "adjacent 0 4 0 3"
    unfolding adjacent_def by (rule exI[of _ 3]) (simp add: NUM_NEIGHBORS_def rnbr_def cnbr_def)
  with reg b3 have 4: "(0, 3) \<in> closure ?k ?G ?g 0 4"
    unfolding closure_def by blast
  have 5: "cell_at ?G ?g 0 3 = MSW_CLEAR ?k + 1" by code_simp
  have 6: "msw_dig ?k ?G 0 4 []
     = Inr (\<lparr>rows = 1, columns = 5, mines = 1, grid = Some ?g,
             visible = [0x30, 0x31, 0x3F, 0x46, 0x30]\<rparr>, 1, [])"
    by code_simp
  have 7: "cell_at ?G [0x30, 0x31, 0x3F, 0x46, 0x30] 0 3 = MSW_FLAG ?k" by code_simp
  from 1 2 3 4 5 6 7 show ?thesis by blast
qed

end
